theory Spec2Isabelle
  imports Complex_Main "HOL-Library.Word" "HOL-Library.Signed_Division" "HOL-Library.AList"
begin

section \<open>The chunk flush engine of the ingester (pkg/ingester/flush.go)\<close>

text \<open>
  The development embeds the flush policy, the sweeper, the flush executor, the
  retention reaper and one iteration of a flush worker as HOL functions over an
  explicit ingester state, and proves the properties the specification states
  about them.

  Conventions of the embedding.
  \<^item> Go's \<open>int64\<close> and \<open>uint64\<close> are \<open>64 word\<close>; \<open>+\<close>, \<open>-\<close> and \<open>*\<close> wrap as in Go,
    signed comparisons are \<open><s\<close> and \<open>\<le>s\<close>, and a conversion between \<open>uint64\<close> and
    \<open>int64\<close> keeps the bits, so it is the identity on \<open>64 word\<close>.
  \<^item> \<open>model.Time\<close> is an \<open>int64\<close> of milliseconds, \<open>time.Duration\<close> an \<open>int64\<close> of
    nanoseconds (prometheus/common/model and the Go standard library).
  \<^item> The wall clock is an input: every critical section (a stretch of code under
    one hold of the fingerprint lock) is given the reading of \<open>model.Now()\<close> that
    holds while it runs.
  \<^item> A Go panic is a value of type \<open>panic\<close>; a function that can panic returns
    \<open>panic + 'a\<close>.
  \<^item> The functions run one at a time: the model has no interleaving of the sweeper,
    the workers and the ingest path.
  \<^item> A \<open>float64\<close> metric holds the integer it was converted from.
\<close>

subsection \<open>Machine integers and time\<close>

type_synonym Fingerprint = "64 word"
type_synonym Time = "64 word"
type_synonym Duration = "64 word"
type_synonym error = string
type_synonym Labels = "(string \<times> string) list"

datatype panic = DivideByZero | IndexOutOfRange | NilPointer

text \<open>Go's \<open>/\<close> and \<open>%\<close> on \<open>int64\<close> truncate towards zero; the divisor is not zero.\<close>

definition quo64 :: "64 word \<Rightarrow> 64 word \<Rightarrow> 64 word" where
  "quo64 a b = word_of_int (sint a sdiv sint b)"

definition rem64 :: "64 word \<Rightarrow> 64 word \<Rightarrow> 64 word" where
  "rem64 a b = word_of_int (sint a smod sint b)"

text \<open>\<open>minimumTick = time.Millisecond\<close>, in nanoseconds; \<open>second\<close> is a second in ticks.\<close>

definition minimumTick :: Duration where
  "minimumTick = 1000000"

definition second :: "64 word" where
  "second = 1000"

text \<open>\<open>func (t Time) Sub(o Time) time.Duration { return time.Duration(t-o) * minimumTick }\<close>\<close>

definition Sub :: "Time \<Rightarrow> Time \<Rightarrow> Duration" where
  "Sub t u = (t - u) * minimumTick"

text \<open>\<open>func (t Time) Add(d time.Duration) Time { return t + Time(d/minimumTick) }\<close>\<close>

definition Add :: "Time \<Rightarrow> Duration \<Rightarrow> Time" where
  "Add t d = t + quo64 d minimumTick"

text \<open>\<open>func (t Time) Unix() int64 { return int64(t) / second }\<close>\<close>

definition Unix :: "Time \<Rightarrow> 64 word" where
  "Unix t = quo64 t second"

text \<open>\<open>flushBackoff = 1 * time.Second\<close>\<close>

definition flushBackoff :: Duration where
  "flushBackoff = 1000000000"

subsection \<open>Data model\<close>

datatype flushReason =
    noFlush
  | reasonImmediate
  | reasonMultipleChunksInSeries
  | reasonAged
  | reasonIdle
  | reasonStale
  | reasonSpreadFlush

fun String :: "flushReason \<Rightarrow> string" where
  "String noFlush = ''NoFlush''"
| "String reasonImmediate = ''Immediate''"
| "String reasonMultipleChunksInSeries = ''MultipleChunksInSeries''"
| "String reasonAged = ''Aged''"
| "String reasonIdle = ''Idle''"
| "String reasonStale = ''Stale''"
| "String reasonSpreadFlush = ''Spread''"

text \<open>
  The payload of a chunk (\<open>encoding.Chunk\<close>) is opaque to the flush engine, which only
  calls its methods. A payload is the record of what they return: \<open>Len()\<close>, \<open>Size()\<close>,
  \<open>Utilization()\<close>, and the error, if any, that \<open>Encode()\<close> of the wire chunk built
  around it returns.
\<close>

record Chunk =
  Len :: int
  Size :: int
  Utilization :: real
  Encode :: "error option"

record desc =
  C :: Chunk
  FirstTime :: Time
  LastTime :: Time
  LastUpdate :: Time
  flushReason :: flushReason
  flushed :: bool

text \<open>
  Modelled from the spec: the series type is declared outside flush.go. The
  specification gives a series its label set \<open>metric\<close>, its chunk descriptors oldest
  first, the \<open>headChunkClosed\<close> flag and a stale marker saying that the last sample is
  a stale value.
\<close>

record memorySeries =
  metric :: Labels
  chunkDescs :: "desc list"
  headChunkClosed :: bool
  lastSampleIsStale :: bool

text \<open>Modelled from the spec: \<open>isStale()\<close> reads the stale marker of the series.\<close>

definition isStale :: "memorySeries \<Rightarrow> bool" where
  "isStale s = lastSampleIsStale s"

text \<open>
  Modelled from the spec: \<open>firstTime()\<close> returns \<open>chunkDescs[0].FirstTime\<close>; on a series
  without chunks the index is out of range.
\<close>

definition firstTime :: "memorySeries \<Rightarrow> panic + Time" where
  "firstTime s = (case chunkDescs s of [] \<Rightarrow> Inl IndexOutOfRange | c # _ \<Rightarrow> Inr (FirstTime c))"

text \<open>
  Modelled from the spec: \<open>head()\<close> returns the last chunk descriptor; on a series
  without chunks the index is out of range.
\<close>

definition head :: "memorySeries \<Rightarrow> panic + desc" where
  "head s = (if chunkDescs s = [] then Inl IndexOutOfRange else Inr (last (chunkDescs s)))"

text \<open>
  Modelled from the spec: \<open>firstUnflushedChunkTime()\<close> returns the \<open>FirstTime\<close> of the
  earliest chunk that is not flushed, or 0.
\<close>

fun firstUnflushed :: "desc list \<Rightarrow> Time" where
  "firstUnflushed [] = 0"
| "firstUnflushed (c # cs) = (if \<not> flushed c then FirstTime c else firstUnflushed cs)"

definition firstUnflushedChunkTime :: "memorySeries \<Rightarrow> Time" where
  "firstUnflushedChunkTime s = firstUnflushed (chunkDescs s)"

text \<open>
  Modelled from the spec: \<open>closeHead(reason)\<close> closes the head chunk: it sets
  \<open>headChunkClosed\<close> and stamps the reason on the chunk it closes. The flush executor
  calls it on series that have a chunk.
\<close>

definition closeHead :: "flushReason \<Rightarrow> memorySeries \<Rightarrow> memorySeries" where
  "closeHead reason s =
     s\<lparr>chunkDescs :=
         (chunkDescs s)[length (chunkDescs s) - 1 :=
            (last (chunkDescs s))\<lparr>flushReason := reason\<rparr>],
       headChunkClosed := True\<rparr>"

record Config =
  ConcurrentFlushes :: "64 word"
  FlushOpTimeout :: Duration
  MaxChunkAge :: Duration
  ChunkAgeJitter :: Duration
  MaxChunkIdle :: Duration
  MaxStaleChunkIdle :: Duration
  RetainPeriod :: Duration

subsection \<open>Flush policy\<close>

definition shouldFlushChunk :: "Config \<Rightarrow> Time \<Rightarrow> desc \<Rightarrow> Fingerprint \<Rightarrow> bool \<Rightarrow> flushReason" where
  "shouldFlushChunk conf now c fp lastValueIsStale =
     (if flushed c then noFlush
      else
        let jitter = (if ChunkAgeJitter conf \<noteq> 0 then rem64 fp (ChunkAgeJitter conf) else 0)
        in
          if (MaxChunkAge conf - jitter) <s Sub (LastTime c) (FirstTime c) then reasonAged
          else if MaxChunkIdle conf <s Sub now (LastUpdate c) then reasonIdle
          else if 0 <s MaxStaleChunkIdle conf \<and> lastValueIsStale \<and>
                  MaxStaleChunkIdle conf <s Sub now (LastUpdate c) then reasonStale
          else noFlush)"

definition shouldFlushSeries :: "Config \<Rightarrow> Time \<Rightarrow> memorySeries \<Rightarrow> Fingerprint \<Rightarrow> bool \<Rightarrow> flushReason" where
  "shouldFlushSeries conf now series fp immediate =
     (if length (chunkDescs series) = 0 then noFlush
      else if immediate then reasonImmediate
      else if length (chunkDescs series) > 1 \<and> \<not> flushed (chunkDescs series ! 0) then
        (if flushReason (chunkDescs series ! 0) \<noteq> noFlush
         then flushReason (chunkDescs series ! 0)
         else reasonMultipleChunksInSeries)
      else shouldFlushChunk conf now (chunkDescs series ! 0) fp (isStale series))"

subsection \<open>Flush operations and the priority queue\<close>

text \<open>
  The fields of \<open>flushOp\<close> are \<open>from\<close>, \<open>userID\<close>, \<open>fp\<close> and \<open>immediate\<close> in the source;
  they carry the prefix \<open>op_\<close> here.
\<close>

record flushOp =
  op_from :: Time
  op_userID :: string
  op_fp :: Fingerprint
  op_immediate :: bool

text \<open>The decimal digits of a number, as \<open>%d\<close> prints them.\<close>

fun decimal :: "nat \<Rightarrow> string" where
  "decimal n =
     (if n < 10 then [char_of (48 + n)]
      else decimal (n div 10) @ [char_of (48 + n mod 10)])"

declare decimal.simps [simp del]

text \<open>\<open>fmt.Sprintf("%s-%d-%v", o.userID, o.fp, o.immediate)\<close>\<close>

definition Key :: "flushOp \<Rightarrow> string" where
  "Key opr =
     op_userID opr @ ''-'' @ decimal (unat (op_fp opr)) @ ''-'' @
     (if op_immediate opr then ''true'' else ''false'')"

text \<open>\<open>return -int64(o.from)\<close>\<close>

definition Priority :: "flushOp \<Rightarrow> 64 word" where
  "Priority opr = - op_from opr"

text \<open>
  Modelled from the spec: the priority queue (pkg/util) is not part of flush.go. By
  the specification, \<open>Enqueue\<close> does nothing and returns false when an operation with
  the same key is queued, and otherwise inserts the operation ordered by descending
  priority, first in first out among equal priorities, and returns true; \<open>Dequeue\<close>
  blocks until an operation is available or the queue is closed, and returns the
  operation of highest priority, or nil when the queue is closed and drained;
  \<open>Close\<close> marks the queue closed. A queue is the list of its operations in the
  order \<open>Dequeue\<close> hands them out.
\<close>

record PriorityQueue =
  closed :: bool
  queue :: "flushOp list"

fun insertOp :: "flushOp \<Rightarrow> flushOp list \<Rightarrow> flushOp list" where
  "insertOp opr [] = [opr]"
| "insertOp opr (x # xs) =
     (if Priority x <s Priority opr then opr # x # xs else x # insertOp opr xs)"

definition Enqueue :: "PriorityQueue \<Rightarrow> flushOp \<Rightarrow> PriorityQueue \<times> bool" where
  "Enqueue pq opr =
     (if Key opr \<in> set (map Key (queue pq)) then (pq, False)
      else (pq\<lparr>queue := insertOp opr (queue pq)\<rparr>, True))"

datatype dequeued = Blocks | Nil | Got flushOp PriorityQueue

definition Dequeue :: "PriorityQueue \<Rightarrow> dequeued" where
  "Dequeue pq =
     (case queue pq of
        [] \<Rightarrow> if closed pq then Nil else Blocks
      | x # xs \<Rightarrow> Got x (pq\<lparr>queue := xs\<rparr>))"

definition Close :: "PriorityQueue \<Rightarrow> PriorityQueue" where
  "Close pq = pq\<lparr>closed := True\<rparr>"

subsection \<open>Chunk store, metrics and the ingester state\<close>

text \<open>\<open>chunk.NewChunk(userID, fp, metric, c, from, through)\<close>: the wire chunk.\<close>

record WireChunk =
  UserID :: string
  Fingerprint :: Fingerprint
  Metric :: Labels
  Data :: Chunk
  From :: Time
  Through :: Time

definition NewChunk :: "string \<Rightarrow> Fingerprint \<Rightarrow> Labels \<Rightarrow> Chunk \<Rightarrow> Time \<Rightarrow> Time \<Rightarrow> WireChunk" where
  "NewChunk userID fp m c t1 t2 =
     \<lparr>UserID = userID, Fingerprint = fp, Metric = m, Data = c, From = t1, Through = t2\<rparr>"

text \<open>
  The chunk store is an external collaborator. Its answer to a \<open>Put\<close> is an input of
  the model: \<open>putResult\<close> gives it from the number of earlier calls and the chunks
  sent. \<open>putCalls\<close> logs the calls the ingester has issued.
\<close>

record ChunkStore =
  putResult :: "nat \<Rightarrow> WireChunk list \<Rightarrow> error option"
  putCalls :: "WireChunk list list"

definition Put :: "ChunkStore \<Rightarrow> WireChunk list \<Rightarrow> error option \<times> ChunkStore" where
  "Put store ws =
     (putResult store (length (putCalls store)) ws, store\<lparr>putCalls := putCalls store @ [ws]\<rparr>)"

text \<open>
  The package-level metric variables. A histogram is the list of the values it has
  observed, a counter vector a function of its label.
\<close>

record Metrics =
  chunkUtilization :: "real list"
  chunkLength :: "int list"
  chunkSize :: "int list"
  chunksPerUser :: "string \<Rightarrow> int"
  chunkSizePerUser :: "string \<Rightarrow> int"
  chunkAge :: "Duration list"
  memoryChunks :: int
  flushReasons :: "string \<Rightarrow> int"
  droppedChunks :: int
  oldestUnflushedChunkTimestamp :: "64 word"

record Limits =
  MinChunkLength :: "string \<Rightarrow> int"

text \<open>
  Modelled from the spec: the user state maps fingerprints to series, and the
  registry maps user ids to user states. A Go map is the list of its entries, in
  the order an iteration visits them; \<open>get\<close> is \<open>map_of\<close>.
\<close>

record userState =
  fpToSeries :: "(Fingerprint \<times> memorySeries) list"

record Ingester =
  cfg :: Config
  limits :: Limits
  chunkStore :: "ChunkStore option"
  userStates :: "(string \<times> userState) list"
  flushQueues :: "PriorityQueue list"
  metrics :: Metrics

text \<open>Modelled from the spec: \<open>removeSeries(fp, metric)\<close> deletes the series of \<open>fp\<close>.\<close>

definition removeSeries :: "Fingerprint \<Rightarrow> Labels \<Rightarrow> userState \<Rightarrow> userState" where
  "removeSeries fp m u = u\<lparr>fpToSeries := AList.delete fp (fpToSeries u)\<rparr>"

text \<open>
  The source holds user states and series by pointer and changes them in place. In
  the model a change through the pointer of user \<open>userID\<close> is \<open>onUserState\<close>, and the
  new contents of the series object of \<open>(userID, fp)\<close> are stored by \<open>writeSeries\<close>;
  neither adds an entry to a map.
\<close>

definition onUserState :: "string \<Rightarrow> (userState \<Rightarrow> userState) \<Rightarrow> Ingester \<Rightarrow> Ingester" where
  "onUserState userID f i = i\<lparr>userStates := AList.map_entry userID f (userStates i)\<rparr>"

definition writeSeries :: "string \<Rightarrow> Fingerprint \<Rightarrow> memorySeries \<Rightarrow> Ingester \<Rightarrow> Ingester" where
  "writeSeries userID fp s i =
     onUserState userID
       (\<lambda>u. u\<lparr>fpToSeries := AList.map_entry fp (\<lambda>_. s) (fpToSeries u)\<rparr>) i"

text \<open>\<open>userStates.get(userID)\<close> followed by \<open>fpToSeries.get(fp)\<close>.\<close>

definition getSeries :: "Ingester \<Rightarrow> string \<Rightarrow> Fingerprint \<Rightarrow> memorySeries option" where
  "getSeries i userID fp =
     (case map_of (userStates i) userID of
        None \<Rightarrow> None
      | Some u \<Rightarrow> map_of (fpToSeries u) fp)"

subsection \<open>Sweeper and retention reaper\<close>

text \<open>
  \<open>sweepSeries\<close> (lines 177-193). The series is the one the iteration handed out.
  \<open>uint64(fp) % uint64(ConcurrentFlushes)\<close> panics when the divisor is 0, and the index
  into \<open>flushQueues\<close>, a Go \<open>int\<close>, panics when it is negative or not below the length.
\<close>

definition sweepSeries ::
  "Time \<Rightarrow> string \<Rightarrow> Fingerprint \<Rightarrow> memorySeries \<Rightarrow> bool \<Rightarrow> Ingester \<Rightarrow> panic + Ingester" where
  "sweepSeries now userID fp series immediate i =
     (if length (chunkDescs series) \<le> 0 then Inr i
      else
        case firstTime series of
          Inl p \<Rightarrow> Inl p
        | Inr firstT \<Rightarrow>
            let flush = shouldFlushSeries (cfg i) now series fp immediate in
            if flush = noFlush then Inr i
            else if ConcurrentFlushes (cfg i) = 0 then Inl DivideByZero
            else
              let flushQueueIndex = sint (fp mod ConcurrentFlushes (cfg i)) in
              if flushQueueIndex < 0 \<or> int (length (flushQueues i)) \<le> flushQueueIndex
              then Inl IndexOutOfRange
              else
                let (q, added) =
                      Enqueue (flushQueues i ! nat flushQueueIndex)
                        \<lparr>op_from = firstT, op_userID = userID, op_fp = fp,
                         op_immediate = immediate\<rparr>;
                    i1 = i\<lparr>flushQueues := (flushQueues i)[nat flushQueueIndex := q]\<rparr>
                in
                  if added
                  then Inr (i1\<lparr>metrics := (metrics i1)
                         \<lparr>flushReasons := (flushReasons (metrics i1))
                            (String flush := flushReasons (metrics i1) (String flush) + 1)\<rparr>\<rparr>)
                  else Inr i1)"

text \<open>
  The loop of \<open>removeFlushedChunks\<close> (lines 366-374) over the chunk descriptors and
  the \<open>memoryChunks\<close> gauge.
\<close>

fun dropFlushed :: "Duration \<Rightarrow> Time \<Rightarrow> desc list \<Rightarrow> int \<Rightarrow> desc list \<times> int" where
  "dropFlushed retain now [] mc = ([], mc)"
| "dropFlushed retain now (c # cs) mc =
     (if flushed c \<and> retain <s Sub now (LastUpdate c)
      then dropFlushed retain now cs (mc - 1)
      else (c # cs, mc))"

text \<open>
  \<open>removeFlushedChunks\<close> (lines 364-378). The user state is named by its user id; the
  series is changed in place, so the function returns it with the ingester.
\<close>

definition removeFlushedChunks ::
  "Time \<Rightarrow> string \<Rightarrow> Fingerprint \<Rightarrow> memorySeries \<Rightarrow> Ingester \<Rightarrow> memorySeries \<times> Ingester" where
  "removeFlushedChunks now userID fp series i =
     (let (cds, mc) =
            dropFlushed (RetainPeriod (cfg i)) now (chunkDescs series) (memoryChunks (metrics i));
          series1 = series\<lparr>chunkDescs := cds\<rparr>;
          i1 = (writeSeries userID fp series1 i)\<lparr>metrics := (metrics i)\<lparr>memoryChunks := mc\<rparr>\<rparr>
      in
        if length (chunkDescs series1) = 0
        then (series1, onUserState userID (removeSeries fp (metric series1)) i1)
        else (series1, i1))"

text \<open>
  \<open>sweepUsers\<close> (lines 116-138). \<open>clock userID fp\<close> is the reading of the clock while
  the sweep holds the lock of that series. The inner loop runs over the series of one
  user, the outer loop over the snapshot \<open>cp()\<close> of the registry; both carry the
  ingester and \<open>oldest\<close>, which \<open>older\<close> (lines 131-133) updates.
\<close>

definition older :: "Time \<Rightarrow> Time \<Rightarrow> Time" where
  "older oldest first =
     (if 0 <s first \<and> (oldest = 0 \<or> first <s oldest) then first else oldest)"

fun sweepUserSeries ::
  "(string \<Rightarrow> Fingerprint \<Rightarrow> Time) \<Rightarrow> bool \<Rightarrow> string \<Rightarrow> (Fingerprint \<times> memorySeries) list \<Rightarrow>
   Ingester \<times> Time \<Rightarrow> panic + (Ingester \<times> Time)" where
  "sweepUserSeries clock immediate userID [] acc = Inr acc"
| "sweepUserSeries clock immediate userID ((fp, series) # pairs) (i, oldest) =
     (case sweepSeries (clock userID fp) userID fp series immediate i of
        Inl p \<Rightarrow> Inl p
      | Inr i1 \<Rightarrow>
          let (series1, i2) = removeFlushedChunks (clock userID fp) userID fp series i1;
              first = firstUnflushedChunkTime series1
          in
            sweepUserSeries clock immediate userID pairs (i2, older oldest first))"

fun sweepStates ::
  "(string \<Rightarrow> Fingerprint \<Rightarrow> Time) \<Rightarrow> bool \<Rightarrow> (string \<times> userState) list \<Rightarrow>
   Ingester \<times> Time \<Rightarrow> panic + (Ingester \<times> Time)" where
  "sweepStates clock immediate [] acc = Inr acc"
| "sweepStates clock immediate ((userID, state) # states) acc =
     (case sweepUserSeries clock immediate userID (fpToSeries state) acc of
        Inl p \<Rightarrow> Inl p
      | Inr acc1 \<Rightarrow> sweepStates clock immediate states acc1)"

definition sweepUsers ::
  "(string \<Rightarrow> Fingerprint \<Rightarrow> Time) \<Rightarrow> bool \<Rightarrow> Ingester \<Rightarrow> panic + Ingester" where
  "sweepUsers clock immediate i =
     (if chunkStore i = None then Inr i
      else
        case sweepStates clock immediate (userStates i) (i, 0) of
          Inl p \<Rightarrow> Inl p
        | Inr (i1, oldest) \<Rightarrow>
            Inr (i1\<lparr>metrics := (metrics i1)\<lparr>oldestUnflushedChunkTimestamp := Unix oldest\<rparr>\<rparr>))"

text \<open>
  \<open>Flush\<close> (lines 78-89) sweeps and closes the queues; the wait for the workers is not
  modelled. \<open>FlushHandler\<close> (lines 93-98) sweeps and answers 204.
\<close>

definition Flush :: "(string \<Rightarrow> Fingerprint \<Rightarrow> Time) \<Rightarrow> Ingester \<Rightarrow> panic + Ingester" where
  "Flush clock i =
     (case sweepUsers clock True i of
        Inl p \<Rightarrow> Inl p
      | Inr i1 \<Rightarrow> Inr (i1\<lparr>flushQueues := map Close (flushQueues i1)\<rparr>))"

definition FlushHandler :: "(string \<Rightarrow> Fingerprint \<Rightarrow> Time) \<Rightarrow> Ingester \<Rightarrow> panic + (nat \<times> Ingester)" where
  "FlushHandler clock i =
     (case sweepUsers clock True i of
        Inl p \<Rightarrow> Inl p
      | Inr i1 \<Rightarrow> Inr (204, i1))"

subsection \<open>Flush executor\<close>

text \<open>
  The choice of the chunks to flush (lines 294-302). \<open>chunks\<close> is a prefix of
  \<open>series.chunkDescs\<close> that shares its descriptors, so it is given by its length: the
  function returns the series, with its head closed or not, and \<open>len(chunks)\<close>.
\<close>

definition selectChunks ::
  "Config \<Rightarrow> Time \<Rightarrow> Fingerprint \<Rightarrow> bool \<Rightarrow> memorySeries \<Rightarrow> panic + (memorySeries \<times> nat)" where
  "selectChunks conf now fp immediate series =
     (if immediate then Inr (closeHead reasonImmediate series, length (chunkDescs series))
      else
        case head series of
          Inl p \<Rightarrow> Inl p
        | Inr h \<Rightarrow>
            let chunkReason = shouldFlushChunk conf now h fp (isStale series) in
            if chunkReason \<noteq> noFlush
            then Inr (closeHead chunkReason series, length (chunkDescs series))
            else Inr (series, length (chunkDescs series) - 1))"

text \<open>
  The undersize drop (lines 304-326): it returns the ingester and the length of
  \<open>chunks\<close> after it, which is 0 when the series was dropped.
\<close>

definition dropUndersized ::
  "flushReason \<Rightarrow> string \<Rightarrow> Fingerprint \<Rightarrow> memorySeries \<Rightarrow> nat \<Rightarrow> Ingester \<Rightarrow> Ingester \<times> nat" where
  "dropUndersized reason userID fp series n i =
     (if (reason = reasonIdle \<or> reason = reasonStale) \<and> headChunkClosed series then
        let minChunkLength = MinChunkLength (limits i) userID in
        if minChunkLength > 0 then
          let chunkLength = foldl (\<lambda>acc c. acc + Len (C c)) 0 (take n (chunkDescs series)) in
          if chunkLength < minChunkLength then
            ((onUserState userID (removeSeries fp (metric series)) i)
               \<lparr>metrics := (metrics i)
                  \<lparr>memoryChunks := memoryChunks (metrics i) - int n,
                   droppedChunks := droppedChunks (metrics i) + int n\<rparr>\<rparr>, 0)
          else (i, n)
        else (i, n)
      else (i, n))"

text \<open>\<open>flushChunks\<close> (lines 380-409): the encoding loop, the \<open>Put\<close>, the statistics.\<close>

fun encodeChunks :: "string \<Rightarrow> Fingerprint \<Rightarrow> Labels \<Rightarrow> desc list \<Rightarrow> error + WireChunk list" where
  "encodeChunks userID fp m [] = Inr []"
| "encodeChunks userID fp m (d # ds) =
     (let c = NewChunk userID fp m (C d) (FirstTime d) (LastTime d) in
      case Encode (Data c) of
        Some err \<Rightarrow> Inl err
      | None \<Rightarrow>
          (case encodeChunks userID fp m ds of
             Inl err \<Rightarrow> Inl err
           | Inr cs \<Rightarrow> Inr (c # cs)))"

definition observeChunk :: "Time \<Rightarrow> string \<Rightarrow> Metrics \<Rightarrow> desc \<Rightarrow> Metrics" where
  "observeChunk now userID m d =
     m\<lparr>chunkUtilization := chunkUtilization m @ [Utilization (C d)],
       chunkLength := chunkLength m @ [Len (C d)],
       chunkSize := chunkSize m @ [Size (C d)],
       chunkSizePerUser := (chunkSizePerUser m)(userID := chunkSizePerUser m userID + Size (C d)),
       chunksPerUser := (chunksPerUser m)(userID := chunksPerUser m userID + 1),
       chunkAge := chunkAge m @ [Sub now (FirstTime d)]\<rparr>"

definition flushChunks ::
  "Time \<Rightarrow> string \<Rightarrow> Fingerprint \<Rightarrow> Labels \<Rightarrow> desc list \<Rightarrow> Ingester \<Rightarrow>
   panic + (error option \<times> Ingester)" where
  "flushChunks now userID fp m descs i =
     (case encodeChunks userID fp m descs of
        Inl err \<Rightarrow> Inr (Some err, i)
      | Inr wireChunks \<Rightarrow>
          (case chunkStore i of
             None \<Rightarrow> Inl NilPointer
           | Some store \<Rightarrow>
               let (res, store1) = Put store wireChunks;
                   i1 = i\<lparr>chunkStore := Some store1\<rparr>
               in
                 (case res of
                    Some err \<Rightarrow> Inr (Some err, i1)
                  | None \<Rightarrow>
                      Inr (None,
                        i1\<lparr>metrics := foldl (observeChunk now userID) (metrics i1) descs\<rparr>))))"

text \<open>
  The second critical section (lines 348-359), after a successful \<open>Put\<close> of the first
  \<open>n\<close> descriptors of the series.
\<close>

definition markFlushed ::
  "Time \<Rightarrow> string \<Rightarrow> Fingerprint \<Rightarrow> bool \<Rightarrow> memorySeries \<Rightarrow> nat \<Rightarrow> Ingester \<Rightarrow> Ingester" where
  "markFlushed now userID fp immediate series n i =
     (if immediate then
        (onUserState userID (removeSeries fp (metric series)) i)
          \<lparr>metrics := (metrics i)\<lparr>memoryChunks := memoryChunks (metrics i) - int n\<rparr>\<rparr>
      else
        writeSeries userID fp
          (series\<lparr>chunkDescs :=
             map (\<lambda>d. d\<lparr>flushed := True, LastUpdate := now\<rparr>) (take n (chunkDescs series)) @
             drop n (chunkDescs series)\<rparr>) i)"

text \<open>
  \<open>flushUserSeries\<close> (lines 271-361) in two definitions. \<open>lockedSection\<close> is the
  function up to the release of the lock (lines 276-328): it returns the ingester
  and, unless the function is to return nil there, the series with the length of
  \<open>chunks\<close>, which is not 0. \<open>flushUserSeries\<close> goes on with \<open>flushChunks\<close> and the second
  critical section. \<open>now\<close> is the clock in the first critical section, \<open>now'\<close> the
  clock after the \<open>Put\<close>. The test hook \<open>preFlushUserSeries\<close> is left out: it is a
  \<open>func()\<close> without access to the state of the model. The context, its timeout and the
  tracing span only reach the store, whose answer is an input.
\<close>

definition lockedSection ::
  "Time \<Rightarrow> string \<Rightarrow> Fingerprint \<Rightarrow> bool \<Rightarrow> Ingester \<Rightarrow>
   panic + (Ingester \<times> (memorySeries \<times> nat) option)" where
  "lockedSection now userID fp immediate i =
     (case map_of (userStates i) userID of
        None \<Rightarrow> Inr (i, None)
      | Some userState \<Rightarrow>
          (case map_of (fpToSeries userState) fp of
             None \<Rightarrow> Inr (i, None)
           | Some series \<Rightarrow>
               let reason = shouldFlushSeries (cfg i) now series fp immediate in
               if reason = noFlush then Inr (i, None)
               else
                 (case selectChunks (cfg i) now fp immediate series of
                    Inl p \<Rightarrow> Inl p
                  | Inr (series1, n) \<Rightarrow>
                      let (i2, n2) =
                            dropUndersized reason userID fp series1 n
                              (writeSeries userID fp series1 i)
                      in
                        if n2 = 0 then Inr (i2, None)
                        else Inr (i2, Some (series1, n2)))))"

definition flushUserSeries ::
  "Time \<Rightarrow> Time \<Rightarrow> nat \<Rightarrow> string \<Rightarrow> Fingerprint \<Rightarrow> bool \<Rightarrow> Ingester \<Rightarrow>
   panic + (error option \<times> Ingester)" where
  "flushUserSeries now now' flushQueueIndex userID fp immediate i =
     (case lockedSection now userID fp immediate i of
        Inl p \<Rightarrow> Inl p
      | Inr (i2, None) \<Rightarrow> Inr (None, i2)
      | Inr (i2, Some (series1, n)) \<Rightarrow>
          (case flushChunks now' userID fp (metric series1) (take n (chunkDescs series1)) i2 of
             Inl p \<Rightarrow> Inl p
           | Inr (Some err, i3) \<Rightarrow> Inr (Some err, i3)
           | Inr (None, i3) \<Rightarrow>
               Inr (None, markFlushed now' userID fp immediate series1 n i3)))"

subsection \<open>Flush worker\<close>

text \<open>
  One iteration of the loop of \<open>flushLoop(j)\<close> (lines 251-267): the worker blocks on an
  empty open queue, exits on a closed and drained one, and otherwise runs the
  executor and goes on.
\<close>

datatype iteration = Blocked | Exited | Continues

definition flushLoopStep ::
  "Time \<Rightarrow> Time \<Rightarrow> nat \<Rightarrow> Ingester \<Rightarrow> panic + (iteration \<times> Ingester)" where
  "flushLoopStep now now' j i =
     (if length (flushQueues i) \<le> j then Inl IndexOutOfRange
      else
        case Dequeue (flushQueues i ! j) of
          Blocks \<Rightarrow> Inr (Blocked, i)
        | Nil \<Rightarrow> Inr (Exited, i)
        | Got opr q \<Rightarrow>
            (case flushUserSeries now now' j (op_userID opr) (op_fp opr) (op_immediate opr)
                    (i\<lparr>flushQueues := (flushQueues i)[j := q]\<rparr>) of
               Inl p \<Rightarrow> Inl p
             | Inr (err, i1) \<Rightarrow>
                 if op_immediate opr \<and> err \<noteq> None then
                   let opr1 = opr\<lparr>op_from := Add (op_from opr) flushBackoff\<rparr>;
                       (q1, added) = Enqueue (flushQueues i1 ! j) opr1
                   in Inr (Continues, i1\<lparr>flushQueues := (flushQueues i1)[j := q1]\<rparr>)
                 else Inr (Continues, i1)))"

subsection \<open>The claims' wording, where it differs from the code\<close>

text \<open>
  The flush decision for one chunk as the specification words it: the jitter is
  \<open>fp mod ChunkAgeJitter\<close> of the unsigned fingerprint when \<open>ChunkAgeJitter > 0\<close>, and 0
  otherwise.
\<close>

definition claimedShouldFlushChunk ::
  "Config \<Rightarrow> Time \<Rightarrow> desc \<Rightarrow> Fingerprint \<Rightarrow> bool \<Rightarrow> flushReason" where
  "claimedShouldFlushChunk conf now c fp stale =
     (if flushed c then noFlush
      else
        let jitter =
              (if 0 <s ChunkAgeJitter conf
               then word_of_nat (unat fp mod unat (ChunkAgeJitter conf)) else 0)
        in
          if (MaxChunkAge conf - jitter) <s Sub (LastTime c) (FirstTime c) then reasonAged
          else if MaxChunkIdle conf <s Sub now (LastUpdate c) then reasonIdle
          else if 0 <s MaxStaleChunkIdle conf \<and> stale \<and>
                  MaxStaleChunkIdle conf <s Sub now (LastUpdate c) then reasonStale
          else noFlush)"

text \<open>
  The jitter of the code for a fingerprint below \<open>2 ^ 63\<close>: the fingerprint modulo the
  magnitude of \<open>ChunkAgeJitter\<close>, whenever \<open>ChunkAgeJitter\<close> is not 0.
\<close>

definition amendedJitter :: "Config \<Rightarrow> Fingerprint \<Rightarrow> Duration" where
  "amendedJitter conf fp =
     (if ChunkAgeJitter conf \<noteq> 0
      then word_of_int (uint fp mod \<bar>sint (ChunkAgeJitter conf)\<bar>) else 0)"

text \<open>
  The shard of a fingerprint, \<open>fp mod ConcurrentFlushes\<close> on unsigned numbers, and the
  sharding invariant: every operation in queue \<open>j\<close> has a fingerprint of shard \<open>j\<close>.
\<close>

definition shardOf :: "Config \<Rightarrow> Fingerprint \<Rightarrow> nat" where
  "shardOf conf fp = unat fp mod unat (ConcurrentFlushes conf)"

definition sharded :: "Ingester \<Rightarrow> bool" where
  "sharded i \<longleftrightarrow>
     (\<forall>j < length (flushQueues i). \<forall>opr \<in> set (queue (flushQueues i ! j)).
        shardOf (cfg i) (op_fp opr) = j)"

text \<open>
  The series of the registry, user after user, in the order a sweep visits them, and
  the oldest unflushed chunk time as the specification words it: the minimum of
  \<open>firstUnflushedChunkTime()\<close> over the series for which it is greater than 0, and 0 when
  there is none.
\<close>

definition allSeries :: "Ingester \<Rightarrow> memorySeries list" where
  "allSeries i = concat (map (\<lambda>(userID, state). map snd (fpToSeries state)) (userStates i))"

definition minUnflushed :: "memorySeries list \<Rightarrow> Time" where
  "minUnflushed ss =
     (let ts = filter (\<lambda>t. 0 <s t) (map firstUnflushedChunkTime ss)
      in if ts = [] then 0 else word_of_int (Min (set (map sint ts))))"

text \<open>
  A registry is a Go map of Go maps: no user id occurs twice in it, and no fingerprint
  occurs twice among the series of one user.
\<close>

definition wellFormed :: "Ingester \<Rightarrow> bool" where
  "wellFormed i \<longleftrightarrow>
     distinct (map fst (userStates i)) \<and>
     list_all (\<lambda>(userID, state). distinct (map fst (fpToSeries state))) (userStates i)"

text \<open>
  What the reaper leaves of a series at time \<open>now\<close>: the series without its longest
  prefix of flushed chunks older than \<open>RetainPeriod\<close>, or nothing when no chunk is left.
\<close>

definition reaped :: "Config \<Rightarrow> Time \<Rightarrow> memorySeries \<Rightarrow> memorySeries option" where
  "reaped conf now s =
     (let cds = dropWhile (\<lambda>c. flushed c \<and> RetainPeriod conf <s Sub now (LastUpdate c))
                  (chunkDescs s)
      in if cds = [] then None else Some (s\<lparr>chunkDescs := cds\<rparr>))"

subsection \<open>Example states\<close>

text \<open>
  A configuration with a maximum chunk age of one hour, ten minutes of jitter, five
  minutes of idle time, two minutes of stale idle time and five minutes of retention;
  a chunk that spans exactly one hour.
\<close>

definition exConfig :: Config where
  "exConfig =
     \<lparr>ConcurrentFlushes = 4, FlushOpTimeout = 60000000000, MaxChunkAge = 3600000000000,
      ChunkAgeJitter = 600000000000, MaxChunkIdle = 300000000000,
      MaxStaleChunkIdle = 120000000000, RetainPeriod = 300000000000\<rparr>"

definition exPayload :: Chunk where
  "exPayload = \<lparr>Len = 120, Size = 1024, Utilization = 0.5, Encode = None\<rparr>"

definition exHourChunk :: desc where
  "exHourChunk =
     \<lparr>C = exPayload, FirstTime = 0, LastTime = 3600000, LastUpdate = 3600000,
      flushReason = noFlush, flushed = False\<rparr>"

text \<open>
  An ingester with one tenant and one series of fingerprint 5, four empty flush
  queues, a store that accepts every \<open>Put\<close>, no minimum chunk length and three chunks
  counted in memory. \<open>exChunk\<close> makes a chunk from its first and last sample time, its
  last update and its flushed flag.
\<close>

definition exMetrics :: Metrics where
  "exMetrics =
     \<lparr>chunkUtilization = [], chunkLength = [], chunkSize = [], chunksPerUser = (\<lambda>_. 0),
      chunkSizePerUser = (\<lambda>_. 0), chunkAge = [], memoryChunks = 3, flushReasons = (\<lambda>_. 0),
      droppedChunks = 0, oldestUnflushedChunkTimestamp = 0\<rparr>"

definition exStore :: ChunkStore where
  "exStore = \<lparr>putResult = (\<lambda>n ws. None), putCalls = []\<rparr>"

definition exQueue :: PriorityQueue where
  "exQueue = \<lparr>closed = False, queue = []\<rparr>"

definition exChunk :: "Time \<Rightarrow> Time \<Rightarrow> Time \<Rightarrow> bool \<Rightarrow> desc" where
  "exChunk t1 t2 upd fl =
     \<lparr>C = exPayload, FirstTime = t1, LastTime = t2, LastUpdate = upd,
      flushReason = noFlush, flushed = fl\<rparr>"

definition exSeries :: "desc list \<Rightarrow> memorySeries" where
  "exSeries cs =
     \<lparr>metric = [(''__name__'', ''up'')], chunkDescs = cs, headChunkClosed = False,
      lastSampleIsStale = False\<rparr>"

definition exIngester :: "desc list \<Rightarrow> Ingester" where
  "exIngester cs =
     \<lparr>cfg = exConfig, limits = \<lparr>MinChunkLength = (\<lambda>_. 0)\<rparr>, chunkStore = Some exStore,
      userStates = [(''tenant-a'', \<lparr>fpToSeries = [(5, exSeries cs)]\<rparr>)],
      flushQueues = [exQueue, exQueue, exQueue, exQueue], metrics = exMetrics\<rparr>"

text \<open>
  Three chunks for the reaper at time 400000: the first was flushed 398 seconds
  before, the second 10 seconds before, the third is not flushed.
\<close>

definition exReapChunks :: "desc list" where
  "exReapChunks =
     [exChunk 1000 2000 2000 True, exChunk 2001 3000 390000 True,
      exChunk 3001 4000 399000 False]"

text \<open>
  One chunk last updated 398 seconds before time 400000, so that its series is idle;
  an ingester whose store refuses every \<open>Put\<close>; the wire chunk of a descriptor of the
  example series.
\<close>

definition exIdle :: "desc list" where
  "exIdle = [exChunk 1000 2000 2000 False]"

definition exFailing :: "Ingester \<Rightarrow> Ingester" where
  "exFailing i =
     i\<lparr>chunkStore := Some (exStore\<lparr>putResult := (\<lambda>n ws. Some ''store unavailable'')\<rparr>)\<rparr>"

definition exWire :: "desc \<Rightarrow> WireChunk" where
  "exWire d = NewChunk ''tenant-a'' 5 [(''__name__'', ''up'')] (C d) (FirstTime d) (LastTime d)"

text \<open>
  Two unflushed chunks at time 400000: a closed one and a head that was updated half
  a second before.
\<close>

definition exTwo :: "desc list" where
  "exTwo = [exChunk 1000 2000 2000 False, exChunk 2001 399000 399500 False]"

text \<open>An ingester whose tenants have a minimum chunk length of 200 samples.\<close>

definition exSmall :: "Ingester \<Rightarrow> Ingester" where
  "exSmall i = i\<lparr>limits := \<lparr>MinChunkLength = (\<lambda>_. 200)\<rparr>\<rparr>"

text \<open>
  An operation of the example tenant; an ingester with the given operations in
  queue 1; the example ingester after the store has refused the \<open>Put\<close> of an immediate
  flush of its idle series.
\<close>

definition exOp :: "Time \<Rightarrow> Fingerprint \<Rightarrow> bool \<Rightarrow> flushOp" where
  "exOp t fp imm = \<lparr>op_from = t, op_userID = ''tenant-a'', op_fp = fp, op_immediate = imm\<rparr>"

definition exQueued :: "flushOp list \<Rightarrow> Ingester \<Rightarrow> Ingester" where
  "exQueued ops i =
     i\<lparr>flushQueues := [exQueue, exQueue\<lparr>queue := ops\<rparr>, exQueue, exQueue]\<rparr>"


text \<open>
  One unflushed chunk whose first sample is at 1.5 seconds, updated half a second
  before time 400000; an ingester with two tenants and three series, of which the
  series of fingerprint 9 has the given chunks and the only chunk of tenant-b is
  flushed.
\<close>

definition exHalf :: "desc list" where
  "exHalf = [exChunk 1500 2000 399500 False]"

definition exTenants :: "desc list \<Rightarrow> Ingester" where
  "exTenants cs =
     (exIngester [exChunk 2500 3000 399000 False])
       \<lparr>userStates :=
          [(''tenant-a'', \<lparr>fpToSeries =
              [(5, exSeries [exChunk 2500 3000 399000 False]), (9, exSeries cs)]\<rparr>),
           (''tenant-b'', \<lparr>fpToSeries = [(7, exSeries [exChunk 900 950 399900 True])]\<rparr>)]\<rparr>"

section \<open>Properties\<close>

subsection \<open>Signed and unsigned readings of a 64-bit word\<close>

lemma sint_nonneg_uint:
  fixes a :: "64 word"
  assumes "0 \<le> sint a"
  shows "sint a = uint a"
proof -
  have "sint a < 2 ^ 63"
    using sint_less [of a] by simp
  then have "sint a < 2 ^ 64"
    by simp
  then have "take_bit 64 (sint a) = sint a"
    using assms by (simp add: take_bit_int_eq_self)
  then show ?thesis
    using uint_sint [of a] by simp
qed

lemma sint_small_uint:
  fixes a :: "64 word"
  assumes "uint a < 2 ^ 63"
  shows "sint a = uint a"
proof -
  have "- (2 ^ 63) \<le> (0 :: int)"
    by simp
  also have "0 \<le> uint a"
    by simp
  finally have "signed_take_bit 63 (uint a) = uint a"
    using assms by (intro signed_take_bit_int_eq_self)
  then show ?thesis
    using sint_uint [of a] by simp
qed

lemma unat_less_iff_uint:
  fixes a :: "64 word"
  shows "unat a < 2 ^ 63 \<longleftrightarrow> uint a < 2 ^ 63"
  by (simp add: nat_int_comparison(2))

lemma smod_nonneg: "0 \<le> k \<Longrightarrow> k smod l = k mod \<bar>l\<bar>" for k l :: int
  by (cases "k = 0") (simp_all add: signed_modulo_int_def)

lemma rem64_nonneg:
  assumes "unat a < 2 ^ 63"
  shows "rem64 a b = word_of_int (uint a mod \<bar>sint b\<bar>)"
proof -
  have "uint a < 2 ^ 63"
    using assms by (simp only: unat_less_iff_uint)
  then have eq: "sint a = uint a"
    by (rule sint_small_uint)
  have "0 \<le> uint a"
    by simp
  then have "uint a smod sint b = uint a mod \<bar>sint b\<bar>"
    by (rule smod_nonneg)
  then show ?thesis
    by (simp add: rem64_def eq)
qed

subsection \<open>Flush policy\<close>

text \<open>
  Claim C1. For every series, \<open>shouldFlushSeries\<close> returns \<open>noFlush\<close> when the series has
  no chunks; else \<open>reasonImmediate\<close> when \<open>immediate\<close> is set; else, when the series has
  more than one chunk and its oldest chunk is not flushed, the flush reason of that
  chunk if it is set and \<open>reasonMultipleChunksInSeries\<close> otherwise; else the result of
  \<open>shouldFlushChunk\<close> on the oldest chunk with the stale marker of the series.
\<close>

theorem shouldFlushSeries_cases:
  "shouldFlushSeries conf now series fp immediate =
     (case chunkDescs series of
        [] \<Rightarrow> noFlush
      | c0 # rest \<Rightarrow>
          if immediate then reasonImmediate
          else if rest \<noteq> [] \<and> \<not> flushed c0 then
            (if flushReason c0 = noFlush then reasonMultipleChunksInSeries else flushReason c0)
          else shouldFlushChunk conf now c0 fp (isStale series))"
  by (cases "chunkDescs series") (auto simp: shouldFlushSeries_def)

text \<open>
  Claim C2, as stated, fails on the code. With the example configuration, the
  fingerprint \<open>2 ^ 64 - 1\<close> is \<open>-1\<close> as a \<open>time.Duration\<close>, so the jitter of the code is
  \<open>-1\<close> and the one-hour chunk is not aged, while the jitter of the claim is
  273709551615 and the chunk is aged. With \<open>ChunkAgeJitter\<close> of minus ten minutes and
  fingerprint 1 the code computes the jitter 1 and ages the chunk, while the claim
  takes the jitter to be 0.
\<close>

theorem shouldFlushChunk_claim_counterexample:
  "shouldFlushChunk exConfig 3600000 exHourChunk 18446744073709551615 False = noFlush \<and>
   claimedShouldFlushChunk exConfig 3600000 exHourChunk 18446744073709551615 False = reasonAged \<and>
   shouldFlushChunk (exConfig\<lparr>ChunkAgeJitter := - 600000000000\<rparr>) 3600000 exHourChunk 1 False
     = reasonAged \<and>
   claimedShouldFlushChunk (exConfig\<lparr>ChunkAgeJitter := - 600000000000\<rparr>) 3600000 exHourChunk 1
     False = noFlush"
  by (simp add: shouldFlushChunk_def claimedShouldFlushChunk_def exConfig_def exHourChunk_def
      rem64_def signed_modulo_int_def Sub_def minimumTick_def word_sless_alt)

text \<open>
  Claim C2, amended. For every chunk and every fingerprint below \<open>2 ^ 63\<close>,
  \<open>shouldFlushChunk\<close> returns \<open>noFlush\<close> when the chunk is flushed; otherwise, with the
  jitter being the fingerprint modulo the magnitude of \<open>ChunkAgeJitter\<close> when
  \<open>ChunkAgeJitter\<close> is not 0, and 0 otherwise, it returns \<open>reasonAged\<close> when the span of
  the chunk exceeds \<open>MaxChunkAge - jitter\<close>; else \<open>reasonIdle\<close> when the time since the
  last update exceeds \<open>MaxChunkIdle\<close>; else \<open>reasonStale\<close> when \<open>MaxStaleChunkIdle\<close> is
  positive, the series is stale and the time since the last update exceeds
  \<open>MaxStaleChunkIdle\<close>; else \<open>noFlush\<close>. The arithmetic is that of \<open>int64\<close>.
\<close>

theorem shouldFlushChunk_cases:
  assumes "unat fp < 2 ^ 63"
  shows "shouldFlushChunk conf now c fp stale =
     (if flushed c then noFlush
      else if (MaxChunkAge conf - amendedJitter conf fp) <s Sub (LastTime c) (FirstTime c)
        then reasonAged
      else if MaxChunkIdle conf <s Sub now (LastUpdate c) then reasonIdle
      else if 0 <s MaxStaleChunkIdle conf \<and> stale \<and>
              MaxStaleChunkIdle conf <s Sub now (LastUpdate c) then reasonStale
      else noFlush)"
  using rem64_nonneg [OF assms, of "ChunkAgeJitter conf"]
  by (simp add: shouldFlushChunk_def amendedJitter_def)

theorem shouldFlushChunk_cases_witness:
  "unat (7 :: 64 word) < 2 ^ 63 \<and>
   shouldFlushChunk exConfig 3600000 exHourChunk 7 False = reasonAged"
proof -
  have small: "unat (7 :: 64 word) < 2 ^ 63"
    by simp
  show ?thesis
    using shouldFlushChunk_cases [OF small, of exConfig 3600000 exHourChunk False]
    by (simp add: amendedJitter_def exConfig_def exHourChunk_def Sub_def minimumTick_def
        word_sless_alt)
qed

subsection \<open>Reading the state after a change\<close>

lemmas ex_defs = exMetrics_def exStore_def exQueue_def exChunk_def exSeries_def exIngester_def
  exConfig_def exPayload_def

lemmas exec_defs = flushUserSeries_def lockedSection_def shouldFlushSeries_def
  shouldFlushChunk_def selectChunks_def dropUndersized_def flushChunks_def markFlushed_def
  closeHead_def head_def isStale_def writeSeries_def onUserState_def removeSeries_def
  getSeries_def Put_def NewChunk_def observeChunk_def Sub_def minimumTick_def rem64_def
  signed_modulo_int_def word_sless_alt Let_def

lemma getSeries_onUserState:
  "getSeries (onUserState userID f i) u fp =
     (if u = userID then
        (case map_of (userStates i) userID of
           None \<Rightarrow> None
         | Some st \<Rightarrow> map_of (fpToSeries (f st)) fp)
      else getSeries i u fp)"
  by (simp add: getSeries_def onUserState_def map_of_map_entry split: option.splits)

lemma getSeries_writeSeries:
  "getSeries (writeSeries userID fp s i) u fp' =
     (if u = userID \<and> fp' = fp \<and> getSeries i u fp' \<noteq> None then Some s else getSeries i u fp')"
  unfolding writeSeries_def getSeries_onUserState
  by (auto simp: map_of_map_entry getSeries_def split: option.splits)

lemma getSeries_removeSeries:
  "getSeries (onUserState userID (removeSeries fp m) i) u fp' =
     (if u = userID \<and> fp' = fp then None else getSeries i u fp')"
  unfolding getSeries_onUserState
  by (auto simp: removeSeries_def delete_conv getSeries_def split: option.splits)

lemma getSeries_metrics_update [simp]:
  "getSeries (i\<lparr>metrics := m\<rparr>) = getSeries i"
  by (simp add: getSeries_def fun_eq_iff)

lemma getSeries_chunkStore_update [simp]:
  "getSeries (i\<lparr>chunkStore := st\<rparr>) = getSeries i"
  by (simp add: getSeries_def fun_eq_iff)

lemma getSeries_flushQueues_update [simp]:
  "getSeries (i\<lparr>flushQueues := qs\<rparr>) = getSeries i"
  by (simp add: getSeries_def fun_eq_iff)

subsection \<open>Retention reaper\<close>

lemma map_entry_keys: "map fst (AList.map_entry k f xs) = map fst xs"
  by (induction xs) auto

lemma onUserState_users: "map fst (userStates (onUserState userID f i)) = map fst (userStates i)"
  by (simp add: onUserState_def map_entry_keys)

lemma dropFlushed_eq:
  "dropFlushed retain now cs mc =
     (dropWhile (\<lambda>c. flushed c \<and> retain <s Sub now (LastUpdate c)) cs,
      mc - int (length (takeWhile (\<lambda>c. flushed c \<and> retain <s Sub now (LastUpdate c)) cs)))"
  by (induction cs arbitrary: mc) simp_all

text \<open>
  Claim C5, as stated, fails on the code in its last clause: chunks leave the memory
  on other paths than the reaper. With a minimum chunk length of 200 the executor
  drops the idle series of the example, whose only chunk holds 120 samples and was
  never flushed: the series is gone, \<open>memoryChunks\<close> is one less, and no \<open>Put\<close> was
  issued.
\<close>

theorem eviction_without_flush_counterexample:
  "getSeries ((exIngester [exChunk 1000 2000 2000 False])
       \<lparr>limits := \<lparr>MinChunkLength = (\<lambda>_. 200)\<rparr>\<rparr>) ''tenant-a'' 5 =
     Some (exSeries [exChunk 1000 2000 2000 False]) \<and>
   \<not> flushed (exChunk 1000 2000 2000 False) \<and>
   flushUserSeries 400000 400100 1 ''tenant-a'' 5 False
     ((exIngester [exChunk 1000 2000 2000 False])\<lparr>limits := \<lparr>MinChunkLength = (\<lambda>_. 200)\<rparr>\<rparr>) =
   Inr (None,
     (exIngester [])\<lparr>limits := \<lparr>MinChunkLength = (\<lambda>_. 200)\<rparr>,
        userStates := [(''tenant-a'', \<lparr>fpToSeries = []\<rparr>)],
        metrics := exMetrics\<lparr>memoryChunks := 2, droppedChunks := 1\<rparr>\<rparr>) \<and>
   getSeries ((exIngester [])\<lparr>limits := \<lparr>MinChunkLength = (\<lambda>_. 200)\<rparr>,
        userStates := [(''tenant-a'', \<lparr>fpToSeries = []\<rparr>)],
        metrics := exMetrics\<lparr>memoryChunks := 2, droppedChunks := 1\<rparr>\<rparr>) ''tenant-a'' 5 = None"
  by (simp add: exec_defs ex_defs)

text \<open>
  Claim C5, amended. For every series, \<open>removeFlushedChunks\<close> removes exactly the longest
  prefix of \<open>chunkDescs\<close> in which every chunk is flushed and was last updated more than
  \<open>RetainPeriod\<close> before \<open>now\<close>: the chunks it removes all are such chunks, and the first
  chunk it keeps is not. It decrements \<open>memoryChunks\<close> once per removed chunk. A series
  left without chunks is removed from its user state, and a series left with chunks
  stays there with the chunks kept. Nothing else changes: the other fields of the
  series, every other series of every user, the users of the registry, the other
  metrics, the configuration, the limits, the store and the queues are as before. So
  \<open>removeFlushedChunks\<close> never evicts a chunk unless it is flushed and more than
  \<open>RetainPeriod\<close> has passed since its last update.
\<close>

theorem removeFlushedChunks_prefix:
  assumes "removeFlushedChunks now userID fp series i = (series1, i1)"
  shows "chunkDescs series =
           takeWhile (\<lambda>c. flushed c \<and> RetainPeriod (cfg i) <s Sub now (LastUpdate c))
             (chunkDescs series) @ chunkDescs series1 \<and>
         (\<forall>c \<in> set (takeWhile (\<lambda>c. flushed c \<and> RetainPeriod (cfg i) <s Sub now (LastUpdate c))
             (chunkDescs series)). flushed c \<and> RetainPeriod (cfg i) <s Sub now (LastUpdate c)) \<and>
         (case chunkDescs series1 of
            [] \<Rightarrow> getSeries i1 userID fp = None
          | c # cs \<Rightarrow> \<not> (flushed c \<and> RetainPeriod (cfg i) <s Sub now (LastUpdate c)) \<and>
              getSeries i1 userID fp =
                (if getSeries i userID fp = None then None else Some series1)) \<and>
         memoryChunks (metrics i1) =
           memoryChunks (metrics i) -
           int (length (takeWhile (\<lambda>c. flushed c \<and> RetainPeriod (cfg i) <s Sub now (LastUpdate c))
             (chunkDescs series))) \<and>
         series1 = series\<lparr>chunkDescs := chunkDescs series1\<rparr> \<and>
         (\<forall>u f. u \<noteq> userID \<or> f \<noteq> fp \<longrightarrow> getSeries i1 u f = getSeries i u f) \<and>
         map fst (userStates i1) = map fst (userStates i) \<and>
         metrics i1 = (metrics i)\<lparr>memoryChunks := memoryChunks (metrics i1)\<rparr> \<and>
         cfg i1 = cfg i \<and> limits i1 = limits i \<and> chunkStore i1 = chunkStore i \<and>
         flushQueues i1 = flushQueues i"
proof -
  let ?P = "\<lambda>c. flushed c \<and> RetainPeriod (cfg i) <s Sub now (LastUpdate c)"
  let ?cds = "chunkDescs series"
  let ?mc = "memoryChunks (metrics i) - int (length (takeWhile ?P ?cds))"
  let ?i0 = "(writeSeries userID fp (series\<lparr>chunkDescs := dropWhile ?P ?cds\<rparr>) i)
               \<lparr>metrics := (metrics i)\<lparr>memoryChunks := ?mc\<rparr>\<rparr>"
  have s1: "series1 = series\<lparr>chunkDescs := dropWhile ?P ?cds\<rparr>"
    using assms
    by (auto simp: removeFlushedChunks_def dropFlushed_eq Let_def split: if_splits)
  have i1: "i1 = (if dropWhile ?P ?cds = [] then
                    onUserState userID (removeSeries fp (metric series1)) ?i0 else ?i0)"
    using assms
    by (auto simp: removeFlushedChunks_def dropFlushed_eq Let_def split: if_splits)
  have split: "?cds = takeWhile ?P ?cds @ chunkDescs series1"
    by (simp add: s1)
  have removed: "\<forall>c \<in> set (takeWhile ?P ?cds). ?P c"
    by (auto dest: set_takeWhileD)
  have mc: "memoryChunks (metrics i1) = ?mc"
    by (simp add: i1 onUserState_def)
  have kept: "case chunkDescs series1 of
            [] \<Rightarrow> getSeries i1 userID fp = None
          | c # cs \<Rightarrow> \<not> ?P c \<and>
              getSeries i1 userID fp = (if getSeries i userID fp = None then None else Some series1)"
  proof (cases "dropWhile ?P ?cds")
    case Nil
    have "i1 = onUserState userID (removeSeries fp (metric series1)) ?i0"
      unfolding i1 Nil by simp
    then have "getSeries i1 userID fp = None"
      by (simp only: getSeries_removeSeries if_True simp_thms)
    moreover have "chunkDescs series1 = []"
      unfolding s1 using Nil by simp
    ultimately show ?thesis
      by simp
  next
    case (Cons c cs)
    then have "\<not> ?P c"
      using hd_dropWhile [of ?P ?cds] by auto
    moreover have "i1 = ?i0"
      unfolding i1 Cons by simp
    then have "getSeries i1 userID fp = (if getSeries i userID fp = None then None else Some series1)"
      unfolding s1 by (simp add: getSeries_writeSeries)
    moreover have "chunkDescs series1 = c # cs"
      unfolding s1 using Cons by simp
    ultimately show ?thesis
      by simp
  qed
  have same: "series1 = series\<lparr>chunkDescs := chunkDescs series1\<rparr>"
    by (simp add: s1)
  have others: "\<forall>u f. u \<noteq> userID \<or> f \<noteq> fp \<longrightarrow> getSeries i1 u f = getSeries i u f"
    by (auto simp: i1 getSeries_removeSeries getSeries_writeSeries)
  have users: "map fst (userStates i1) = map fst (userStates i)"
    by (simp add: i1 onUserState_users writeSeries_def)
  have rest: "metrics i1 = (metrics i)\<lparr>memoryChunks := memoryChunks (metrics i1)\<rparr> \<and>
         cfg i1 = cfg i \<and> limits i1 = limits i \<and> chunkStore i1 = chunkStore i \<and>
         flushQueues i1 = flushQueues i"
    by (simp add: i1 onUserState_def writeSeries_def)
  show ?thesis
    using split removed kept mc same others users rest by blast
qed

theorem removeFlushedChunks_prefix_witness:
  "removeFlushedChunks 400000 ''tenant-a'' 5 (exSeries exReapChunks) (exIngester exReapChunks) =
     (exSeries (tl exReapChunks),
      (exIngester (tl exReapChunks))\<lparr>metrics := exMetrics\<lparr>memoryChunks := 2\<rparr>\<rparr>) \<and>
   chunkDescs (exSeries exReapChunks) =
     [exChunk 1000 2000 2000 True] @ chunkDescs (exSeries (tl exReapChunks)) \<and>
   getSeries ((exIngester (tl exReapChunks))\<lparr>metrics := exMetrics\<lparr>memoryChunks := 2\<rparr>\<rparr>)
     ''tenant-a'' 5 = Some (exSeries (tl exReapChunks)) \<and>
   memoryChunks (metrics ((exIngester (tl exReapChunks))\<lparr>metrics := exMetrics\<lparr>memoryChunks := 2\<rparr>\<rparr>))
     = memoryChunks (metrics (exIngester exReapChunks)) - 1"
proof -
  have run:
    "removeFlushedChunks 400000 ''tenant-a'' 5 (exSeries exReapChunks) (exIngester exReapChunks) =
       (exSeries (tl exReapChunks),
        (exIngester (tl exReapChunks))\<lparr>metrics := exMetrics\<lparr>memoryChunks := 2\<rparr>\<rparr>)"
    by (simp add: removeFlushedChunks_def exReapChunks_def exec_defs ex_defs)
  show ?thesis
    using removeFlushedChunks_prefix [OF run] run
    by (simp add: exReapChunks_def exec_defs ex_defs)
qed

subsection \<open>Sweeping without a chunk store\<close>

text \<open>
  Claim C10. When the chunk store of the ingester is nil, \<open>sweepUsers\<close> returns at once
  and leaves the ingester as it was: nothing is enqueued, no chunk is reaped, no
  series is removed and the gauge of the oldest unflushed chunk keeps its value. So
  \<open>Flush\<close> only closes the queues and \<open>FlushHandler\<close> only answers 204.
\<close>

theorem sweepUsers_nil_chunkStore:
  assumes "chunkStore i = None"
  shows "sweepUsers clock immediate i = Inr i \<and>
         Flush clock i = Inr (i\<lparr>flushQueues := map Close (flushQueues i)\<rparr>) \<and>
         FlushHandler clock i = Inr (204, i)"
  using assms by (simp add: sweepUsers_def Flush_def FlushHandler_def)

theorem sweepUsers_nil_chunkStore_witness:
  "chunkStore ((exIngester [exChunk 1000 2000 2000 False])\<lparr>chunkStore := None\<rparr>) = None \<and>
   sweepUsers (\<lambda>u f. 400000) True ((exIngester [exChunk 1000 2000 2000 False])\<lparr>chunkStore := None\<rparr>)
     = Inr ((exIngester [exChunk 1000 2000 2000 False])\<lparr>chunkStore := None\<rparr>)"
proof -
  have nil: "chunkStore ((exIngester [exChunk 1000 2000 2000 False])\<lparr>chunkStore := None\<rparr>) = None"
    by simp
  show ?thesis
    using sweepUsers_nil_chunkStore [OF nil, of "\<lambda>u f. 400000" True] by simp
qed

subsection \<open>Flush executor\<close>

lemma closeHead_length [simp]: "length (chunkDescs (closeHead r s)) = length (chunkDescs s)"
  by (simp add: closeHead_def)

lemma closeHead_metric [simp]: "metric (closeHead r s) = metric s"
  by (simp add: closeHead_def)

lemma closeHead_closed [simp]: "headChunkClosed (closeHead r s)"
  by (simp add: closeHead_def)

lemma closeHead_fields:
  "map flushed (chunkDescs (closeHead r s)) = map flushed (chunkDescs s) \<and>
   map LastUpdate (chunkDescs (closeHead r s)) = map LastUpdate (chunkDescs s) \<and>
   map C (chunkDescs (closeHead r s)) = map C (chunkDescs s) \<and>
   map FirstTime (chunkDescs (closeHead r s)) = map FirstTime (chunkDescs s) \<and>
   map LastTime (chunkDescs (closeHead r s)) = map LastTime (chunkDescs s)"
proof (cases "chunkDescs s = []")
  case True
  then show ?thesis
    by (simp add: closeHead_def)
next
  case False
  then have l: "length (chunkDescs s) - Suc 0 < length (chunkDescs s)"
    by (cases "chunkDescs s") simp_all
  have e: "last (chunkDescs s) = chunkDescs s ! (length (chunkDescs s) - Suc 0)"
    using False by (simp add: last_conv_nth)
  show ?thesis
    unfolding closeHead_def e
    using l by (simp add: map_update list_update_same_conv)
qed

lemma selectChunks_cases:
  assumes "selectChunks conf now fp immediate series = Inr (series1, n)"
  shows "(series1 = series \<and> n = length (chunkDescs series) - 1 \<and> \<not> immediate \<and>
          chunkDescs series \<noteq> [] \<and>
          shouldFlushChunk conf now (last (chunkDescs series)) fp (isStale series) = noFlush) \<or>
         (\<exists>r. series1 = closeHead r series \<and> n = length (chunkDescs series))"
  using assms
  by (auto simp: selectChunks_def head_def Let_def split: if_splits)

lemma encodeChunks_Inl:
  "encodeChunks userID fp m ds = Inl err \<Longrightarrow> \<exists>d \<in> set ds. Encode (C d) = Some err"
  by (induction ds) (auto simp: NewChunk_def Let_def split: option.splits sum.splits)

lemma encodeChunks_Inr:
  "encodeChunks userID fp m ds = Inr ws \<Longrightarrow>
     ws = map (\<lambda>d. NewChunk userID fp m (C d) (FirstTime d) (LastTime d)) ds \<and>
     (\<forall>d \<in> set ds. Encode (C d) = None)"
  by (induction ds arbitrary: ws) (auto simp: NewChunk_def Let_def split: option.splits sum.splits)

lemma foldl_observeChunk_memory:
  "memoryChunks (foldl (observeChunk now userID) m ds) = memoryChunks m \<and>
   droppedChunks (foldl (observeChunk now userID) m ds) = droppedChunks m \<and>
   flushReasons (foldl (observeChunk now userID) m ds) = flushReasons m \<and>
   oldestUnflushedChunkTimestamp (foldl (observeChunk now userID) m ds) =
     oldestUnflushedChunkTimestamp m"
  by (induction ds arbitrary: m) (simp_all add: observeChunk_def)

lemma flushChunks_error:
  assumes "flushChunks now userID fp m ds i = Inr (Some err, i3)"
  shows "metrics i3 = metrics i \<and> userStates i3 = userStates i \<and>
         flushQueues i3 = flushQueues i \<and> cfg i3 = cfg i \<and> limits i3 = limits i \<and>
         ((\<exists>d \<in> set ds. Encode (C d) = Some err) \<and> chunkStore i3 = chunkStore i \<or>
          (\<exists>store. chunkStore i = Some store \<and>
             putResult store (length (putCalls store))
               (map (\<lambda>d. NewChunk userID fp m (C d) (FirstTime d) (LastTime d)) ds) = Some err \<and>
             chunkStore i3 = Some (store\<lparr>putCalls := putCalls store @
               [map (\<lambda>d. NewChunk userID fp m (C d) (FirstTime d) (LastTime d)) ds]\<rparr>)))"
  using assms
  by (auto simp: flushChunks_def Put_def Let_def dest: encodeChunks_Inl encodeChunks_Inr
      split: sum.splits option.splits)

lemma flushChunks_ok:
  assumes "flushChunks now userID fp m ds i = Inr (None, i3)"
  shows "metrics i3 = foldl (observeChunk now userID) (metrics i) ds \<and>
         userStates i3 = userStates i \<and>
         flushQueues i3 = flushQueues i \<and> cfg i3 = cfg i \<and> limits i3 = limits i \<and>
         (\<forall>d \<in> set ds. Encode (C d) = None) \<and>
         (\<exists>store. chunkStore i = Some store \<and>
             putResult store (length (putCalls store))
               (map (\<lambda>d. NewChunk userID fp m (C d) (FirstTime d) (LastTime d)) ds) = None \<and>
             chunkStore i3 = Some (store\<lparr>putCalls := putCalls store @
               [map (\<lambda>d. NewChunk userID fp m (C d) (FirstTime d) (LastTime d)) ds]\<rparr>))"
  using assms
  by (auto simp: flushChunks_def Put_def Let_def dest: encodeChunks_Inl encodeChunks_Inr
      split: sum.splits option.splits)

lemma writeSeries_frame [simp]:
  "metrics (writeSeries userID fp s i) = metrics i"
  "flushQueues (writeSeries userID fp s i) = flushQueues i"
  "cfg (writeSeries userID fp s i) = cfg i"
  "limits (writeSeries userID fp s i) = limits i"
  "chunkStore (writeSeries userID fp s i) = chunkStore i"
  by (simp_all add: writeSeries_def onUserState_def)

lemma onUserState_frame [simp]:
  "metrics (onUserState userID f i) = metrics i"
  "flushQueues (onUserState userID f i) = flushQueues i"
  "cfg (onUserState userID f i) = cfg i"
  "limits (onUserState userID f i) = limits i"
  "chunkStore (onUserState userID f i) = chunkStore i"
  by (simp_all add: onUserState_def)

lemma getSeries_cong: "userStates i = userStates i' \<Longrightarrow> getSeries i = getSeries i'"
  by (simp add: getSeries_def fun_eq_iff)

lemma lockedSection_Some:
  assumes "lockedSection now userID fp immediate i = Inr (i2, Some (series1, n))"
  shows "\<exists>series. getSeries i userID fp = Some series \<and>
           shouldFlushSeries (cfg i) now series fp immediate \<noteq> noFlush \<and>
           selectChunks (cfg i) now fp immediate series = Inr (series1, n) \<and>
           i2 = writeSeries userID fp series1 i \<and> 0 < n"
  using assms
  by (auto simp: lockedSection_def getSeries_def dropUndersized_def Let_def
      split: option.splits sum.splits if_splits prod.splits)

text \<open>
  Claim C3, amended. When \<open>flushUserSeries\<close> has selected chunks and \<open>flushChunks\<close> fails,
  because \<open>Encode\<close> of one of the chunks or the \<open>Put\<close> returns an error, \<open>flushUserSeries\<close>
  returns that error, and the only change to the state of the ingester is the one the
  first critical section made before the \<open>Put\<close>: the series is the one \<open>closeHead\<close> left,
  or the series as it was when the head was not closed. No chunk descriptor gets a new
  \<open>flushed\<close> flag or \<open>LastUpdate\<close>, no series is removed, no metric changes and the queues
  are as before. The store has logged the \<open>Put\<close> when it was the \<open>Put\<close> that failed.
\<close>

theorem flushUserSeries_error:
  assumes sel: "lockedSection now userID fp immediate i = Inr (i2, Some (series1, n))"
    and err: "flushChunks now' userID fp (metric series1) (take n (chunkDescs series1)) i2 =
                Inr (Some err, i3)"
  shows "flushUserSeries now now' q userID fp immediate i = Inr (Some err, i3) \<and>
         (\<exists>series. getSeries i userID fp = Some series \<and>
            (series1 = series \<or> (\<exists>r. series1 = closeHead r series)) \<and>
            map flushed (chunkDescs series1) = map flushed (chunkDescs series) \<and>
            map LastUpdate (chunkDescs series1) = map LastUpdate (chunkDescs series)) \<and>
         (\<forall>u f. getSeries i3 u f =
            (if u = userID \<and> f = fp then Some series1 else getSeries i u f)) \<and>
         metrics i3 = metrics i \<and> flushQueues i3 = flushQueues i \<and>
         ((\<exists>d \<in> set (take n (chunkDescs series1)). Encode (C d) = Some err) \<and>
            chunkStore i3 = chunkStore i \<or>
          (\<exists>store ws. chunkStore i = Some store \<and>
             putResult store (length (putCalls store)) ws = Some err \<and>
             chunkStore i3 = Some (store\<lparr>putCalls := putCalls store @ [ws]\<rparr>)))"
proof -
  from lockedSection_Some [OF sel] obtain series where
    get: "getSeries i userID fp = Some series" and
    choose: "selectChunks (cfg i) now fp immediate series = Inr (series1, n)" and
    i2: "i2 = writeSeries userID fp series1 i"
    by blast
  have ret: "flushUserSeries now now' q userID fp immediate i = Inr (Some err, i3)"
    by (simp add: flushUserSeries_def sel err)
  have shape: "series1 = series \<or> (\<exists>r. series1 = closeHead r series)"
    using selectChunks_cases [OF choose] by blast
  then have fields:
    "map flushed (chunkDescs series1) = map flushed (chunkDescs series) \<and>
     map LastUpdate (chunkDescs series1) = map LastUpdate (chunkDescs series)"
    using closeHead_fields by blast
  note fr = flushChunks_error [OF err]
  have "userStates i3 = userStates (writeSeries userID fp series1 i)"
    using fr by (simp add: i2)
  then have "getSeries i3 = getSeries (writeSeries userID fp series1 i)"
    by (rule getSeries_cong)
  then have look: "\<forall>u f. getSeries i3 u f =
            (if u = userID \<and> f = fp then Some series1 else getSeries i u f)"
    using get by (simp add: getSeries_writeSeries)
  have m: "metrics i3 = metrics i \<and> flushQueues i3 = flushQueues i"
    using fr by (simp add: i2)
  have src: "(\<exists>d \<in> set (take n (chunkDescs series1)). Encode (C d) = Some err) \<and>
            chunkStore i3 = chunkStore i \<or>
          (\<exists>store ws. chunkStore i = Some store \<and>
             putResult store (length (putCalls store)) ws = Some err \<and>
             chunkStore i3 = Some (store\<lparr>putCalls := putCalls store @ [ws]\<rparr>))"
    using fr unfolding i2 writeSeries_frame by blast
  show ?thesis
    using ret get shape fields look m src by blast
qed

lemmas ex2_defs = exIdle_def exFailing_def exWire_def exTwo_def exSmall_def

text \<open>
  Claim C3, as stated, fails on the code: a failed flush does change the state. The
  idle series of the example has an open head; the executor closes it with reason
  \<open>Idle\<close> before the \<open>Put\<close>, the store refuses the \<open>Put\<close>, and the series keeps its closed
  head and the reason stamped on the chunk.
\<close>

theorem flushUserSeries_error_counterexample:
  "flushUserSeries 400000 400100 1 ''tenant-a'' 5 False (exFailing (exIngester exIdle)) =
     Inr (Some ''store unavailable'',
       (exIngester exIdle)
         \<lparr>chunkStore := Some \<lparr>putResult = (\<lambda>n ws. Some ''store unavailable''),
                              putCalls = [[exWire (exChunk 1000 2000 2000 False)]]\<rparr>,
          userStates := [(''tenant-a'', \<lparr>fpToSeries = [(5,
            (exSeries [(exChunk 1000 2000 2000 False)\<lparr>flushReason := reasonIdle\<rparr>])
              \<lparr>headChunkClosed := True\<rparr>)]\<rparr>)]\<rparr>) \<and>
   userStates (exFailing (exIngester exIdle)) \<noteq>
     [(''tenant-a'', \<lparr>fpToSeries = [(5,
            (exSeries [(exChunk 1000 2000 2000 False)\<lparr>flushReason := reasonIdle\<rparr>])
              \<lparr>headChunkClosed := True\<rparr>)]\<rparr>)]"
  by (simp add: exec_defs ex_defs ex2_defs)

theorem flushUserSeries_error_witness:
  "lockedSection 400000 ''tenant-a'' 5 False (exFailing (exIngester exIdle)) =
     Inr (writeSeries ''tenant-a'' 5 (closeHead reasonIdle (exSeries exIdle))
            (exFailing (exIngester exIdle)),
          Some (closeHead reasonIdle (exSeries exIdle), 1)) \<and>
   flushUserSeries 400000 400100 1 ''tenant-a'' 5 False (exFailing (exIngester exIdle)) =
     Inr (Some ''store unavailable'',
       (writeSeries ''tenant-a'' 5 (closeHead reasonIdle (exSeries exIdle))
            (exFailing (exIngester exIdle)))
         \<lparr>chunkStore := Some \<lparr>putResult = (\<lambda>n ws. Some ''store unavailable''),
                              putCalls = [[exWire (exChunk 1000 2000 2000 False)]]\<rparr>\<rparr>)"
proof -
  have sel: "lockedSection 400000 ''tenant-a'' 5 False (exFailing (exIngester exIdle)) =
     Inr (writeSeries ''tenant-a'' 5 (closeHead reasonIdle (exSeries exIdle))
            (exFailing (exIngester exIdle)),
          Some (closeHead reasonIdle (exSeries exIdle), 1))"
    by (simp add: exec_defs ex_defs ex2_defs)
  have err: "flushChunks 400100 ''tenant-a'' 5 (metric (closeHead reasonIdle (exSeries exIdle)))
       (take 1 (chunkDescs (closeHead reasonIdle (exSeries exIdle))))
       (writeSeries ''tenant-a'' 5 (closeHead reasonIdle (exSeries exIdle))
            (exFailing (exIngester exIdle))) =
     Inr (Some ''store unavailable'',
       (writeSeries ''tenant-a'' 5 (closeHead reasonIdle (exSeries exIdle))
            (exFailing (exIngester exIdle)))
         \<lparr>chunkStore := Some \<lparr>putResult = (\<lambda>n ws. Some ''store unavailable''),
                              putCalls = [[exWire (exChunk 1000 2000 2000 False)]]\<rparr>\<rparr>)"
    by (simp add: exec_defs ex_defs ex2_defs)
  show ?thesis
    using flushUserSeries_error [OF sel err, of 1] sel by simp
qed

lemma selectChunks_bound:
  assumes "selectChunks conf now fp immediate series = Inr (series1, n)"
  shows "n \<le> length (chunkDescs series1)"
  using selectChunks_cases [OF assms] by auto

text \<open>
  Claim C4. When \<open>flushUserSeries\<close> has selected chunks and \<open>flushChunks\<close> succeeds, the
  store has accepted one \<open>Put\<close> of \<open>len(chunks)\<close> wire chunks, which is at least one, and
  \<open>flushUserSeries\<close> returns nil. If \<open>immediate\<close> is set the series is removed from its
  user state and \<open>memoryChunks\<close> is decremented by \<open>len(chunks)\<close>. Otherwise the
  \<open>len(chunks)\<close> oldest chunk descriptors of the series get \<open>flushed = true\<close> and
  \<open>LastUpdate\<close> set to the clock after the \<open>Put\<close>, the other descriptors are unchanged,
  the series stays in its user state with all its chunks, and \<open>memoryChunks\<close> keeps its
  value.
\<close>

theorem flushUserSeries_success:
  assumes sel: "lockedSection now userID fp immediate i = Inr (i2, Some (series1, n))"
    and ok: "flushChunks now' userID fp (metric series1) (take n (chunkDescs series1)) i2 =
               Inr (None, i3)"
  shows "\<exists>i4 store ws series.
           flushUserSeries now now' q userID fp immediate i = Inr (None, i4) \<and>
           chunkStore i = Some store \<and>
           putResult store (length (putCalls store)) ws = None \<and>
           chunkStore i4 = Some (store\<lparr>putCalls := putCalls store @ [ws]\<rparr>) \<and>
           length ws = n \<and> 0 < n \<and> n \<le> length (chunkDescs series1) \<and>
           getSeries i userID fp = Some series \<and>
           (series1 = series \<or> (\<exists>r. series1 = closeHead r series)) \<and>
           (if immediate then
              getSeries i4 userID fp = None \<and>
              memoryChunks (metrics i4) = memoryChunks (metrics i) - int n
            else
              getSeries i4 userID fp =
                Some (series1\<lparr>chunkDescs :=
                  map (\<lambda>d. d\<lparr>flushed := True, LastUpdate := now'\<rparr>) (take n (chunkDescs series1)) @
                  drop n (chunkDescs series1)\<rparr>) \<and>
              memoryChunks (metrics i4) = memoryChunks (metrics i))"
proof -
  from lockedSection_Some [OF sel] obtain series where
    get: "getSeries i userID fp = Some series" and
    choose: "selectChunks (cfg i) now fp immediate series = Inr (series1, n)" and
    i2: "i2 = writeSeries userID fp series1 i" and
    pos: "0 < n"
    by blast
  let ?i4 = "markFlushed now' userID fp immediate series1 n i3"
  have ret: "flushUserSeries now now' q userID fp immediate i = Inr (None, ?i4)"
    by (simp add: flushUserSeries_def sel ok)
  have shape: "series1 = series \<or> (\<exists>r. series1 = closeHead r series)"
    using selectChunks_cases [OF choose] by blast
  have le: "n \<le> length (chunkDescs series1)"
    by (rule selectChunks_bound [OF choose])
  note fr = flushChunks_ok [OF ok]
  from fr obtain store where
    st: "chunkStore i = Some store" and
    put: "putResult store (length (putCalls store))
            (map (\<lambda>d. NewChunk userID fp (metric series1) (C d) (FirstTime d) (LastTime d))
               (take n (chunkDescs series1))) = None" and
    st3: "chunkStore i3 = Some (store\<lparr>putCalls := putCalls store @
            [map (\<lambda>d. NewChunk userID fp (metric series1) (C d) (FirstTime d) (LastTime d))
               (take n (chunkDescs series1))]\<rparr>)"
    unfolding i2 writeSeries_frame by blast
  let ?ws = "map (\<lambda>d. NewChunk userID fp (metric series1) (C d) (FirstTime d) (LastTime d))
               (take n (chunkDescs series1))"
  have len: "length ?ws = n"
    using le by simp
  have st4: "chunkStore ?i4 = Some (store\<lparr>putCalls := putCalls store @ [?ws]\<rparr>)"
    using st3 by (simp add: markFlushed_def)
  have us3: "userStates i3 = userStates (writeSeries userID fp series1 i)"
    using fr by (simp add: i2)
  then have g3: "getSeries i3 = getSeries (writeSeries userID fp series1 i)"
    by (rule getSeries_cong)
  have mem3: "memoryChunks (metrics i3) = memoryChunks (metrics i)"
    using fr by (simp add: i2 foldl_observeChunk_memory)
  have fin: "if immediate then
              getSeries ?i4 userID fp = None \<and>
              memoryChunks (metrics ?i4) = memoryChunks (metrics i) - int n
            else
              getSeries ?i4 userID fp =
                Some (series1\<lparr>chunkDescs :=
                  map (\<lambda>d. d\<lparr>flushed := True, LastUpdate := now'\<rparr>) (take n (chunkDescs series1)) @
                  drop n (chunkDescs series1)\<rparr>) \<and>
              memoryChunks (metrics ?i4) = memoryChunks (metrics i)"
    using get mem3
    by (simp add: markFlushed_def getSeries_removeSeries getSeries_writeSeries g3)
  show ?thesis
    using ret st put st4 len pos le get shape fin by blast
qed

theorem flushUserSeries_success_witness:
  "lockedSection 400000 ''tenant-a'' 5 False (exIngester exTwo) =
     Inr (exIngester exTwo, Some (exSeries exTwo, 1)) \<and>
   flushUserSeries 400000 400100 1 ''tenant-a'' 5 False (exIngester exTwo) =
     Inr (None,
       (exIngester [exChunk 1000 2000 400100 True, exChunk 2001 399000 399500 False])
         \<lparr>chunkStore := Some (exStore\<lparr>putCalls := [[exWire (exChunk 1000 2000 2000 False)]]\<rparr>),
          metrics := observeChunk 400100 ''tenant-a'' exMetrics (exChunk 1000 2000 2000 False)\<rparr>) \<and>
   getSeries
     ((exIngester [exChunk 1000 2000 400100 True, exChunk 2001 399000 399500 False])
         \<lparr>chunkStore := Some (exStore\<lparr>putCalls := [[exWire (exChunk 1000 2000 2000 False)]]\<rparr>),
          metrics := observeChunk 400100 ''tenant-a'' exMetrics (exChunk 1000 2000 2000 False)\<rparr>)
     ''tenant-a'' 5 =
     Some (exSeries [exChunk 1000 2000 400100 True, exChunk 2001 399000 399500 False])"
proof -
  have sel: "lockedSection 400000 ''tenant-a'' 5 False (exIngester exTwo) =
     Inr (exIngester exTwo, Some (exSeries exTwo, 1))"
    by (simp add: exec_defs ex_defs ex2_defs exTwo_def)
  have ok: "flushChunks 400100 ''tenant-a'' 5 (metric (exSeries exTwo))
       (take 1 (chunkDescs (exSeries exTwo))) (exIngester exTwo) =
     Inr (None,
       (exIngester exTwo)
         \<lparr>chunkStore := Some (exStore\<lparr>putCalls := [[exWire (exChunk 1000 2000 2000 False)]]\<rparr>),
          metrics := observeChunk 400100 ''tenant-a'' exMetrics (exChunk 1000 2000 2000 False)\<rparr>)"
    by (simp add: exec_defs ex_defs ex2_defs exTwo_def)
  show ?thesis
    using flushUserSeries_success [OF sel ok, of 1] sel
    by (simp add: exec_defs ex_defs ex2_defs exTwo_def)
qed

lemma foldl_Len_sum:
  "foldl (\<lambda>acc c. acc + Len (C c)) a ds = a + sum_list (map (\<lambda>d. Len (C d)) ds)"
  by (induction ds arbitrary: a) simp_all

lemma selected_positive:
  assumes reason: "shouldFlushSeries conf now series fp immediate \<noteq> noFlush"
    and choose: "selectChunks conf now fp immediate series = Inr (series1, n)"
  shows "0 < n"
proof -
  have ne: "chunkDescs series \<noteq> []"
    using reason by (auto simp: shouldFlushSeries_def)
  from selectChunks_cases [OF choose] show ?thesis
  proof
    assume sb: "series1 = series \<and> n = length (chunkDescs series) - 1 \<and> \<not> immediate \<and>
          chunkDescs series \<noteq> [] \<and>
          shouldFlushChunk conf now (last (chunkDescs series)) fp (isStale series) = noFlush"
    have "length (chunkDescs series) \<noteq> 1"
    proof
      assume one: "length (chunkDescs series) = 1"
      then have "last (chunkDescs series) = chunkDescs series ! 0"
        using ne by (simp add: last_conv_nth)
      then show False
        using reason sb one by (simp add: shouldFlushSeries_def)
    qed
    then show ?thesis
      using sb ne by (cases "chunkDescs series") auto
  next
    assume "\<exists>r. series1 = closeHead r series \<and> n = length (chunkDescs series)"
    then show ?thesis
      using ne by auto
  qed
qed

text \<open>
  Claim C6. When the reason re-checked by \<open>flushUserSeries\<close> is \<open>Idle\<close> or \<open>Stale\<close>, the head
  chunk is closed after the choice of the chunks, the minimum chunk length of the
  user is positive and the lengths of the selected chunks sum to less than it, then
  the series is removed from its user state, \<open>memoryChunks\<close> is decremented and
  \<open>droppedChunks\<close> incremented by \<open>len(chunks)\<close>, which is at least one, the first
  critical section ends with no chunks to flush, the store sees no \<open>Put\<close> and
  \<open>flushUserSeries\<close> returns nil.
\<close>

theorem flushUserSeries_undersize_drop:
  assumes get: "getSeries i userID fp = Some series"
    and reason: "shouldFlushSeries (cfg i) now series fp immediate = reasonIdle \<or>
                 shouldFlushSeries (cfg i) now series fp immediate = reasonStale"
    and choose: "selectChunks (cfg i) now fp immediate series = Inr (series1, n)"
    and closed: "headChunkClosed series1"
    and minlen: "0 < MinChunkLength (limits i) userID"
    and small: "sum_list (map (\<lambda>d. Len (C d)) (take n (chunkDescs series1)))
                  < MinChunkLength (limits i) userID"
  shows "\<exists>i1. flushUserSeries now now' q userID fp immediate i = Inr (None, i1) \<and>
           lockedSection now userID fp immediate i = Inr (i1, None) \<and>
           getSeries i1 userID fp = None \<and>
           memoryChunks (metrics i1) = memoryChunks (metrics i) - int n \<and>
           droppedChunks (metrics i1) = droppedChunks (metrics i) + int n \<and>
           0 < n \<and>
           chunkStore i1 = chunkStore i"
proof -
  let ?r = "shouldFlushSeries (cfg i) now series fp immediate"
  let ?i0 = "writeSeries userID fp series1 i"
  let ?i1 = "(onUserState userID (removeSeries fp (metric series1)) ?i0)
               \<lparr>metrics := (metrics ?i0)
                  \<lparr>memoryChunks := memoryChunks (metrics ?i0) - int n,
                   droppedChunks := droppedChunks (metrics ?i0) + int n\<rparr>\<rparr>"
  have r: "?r \<noteq> noFlush"
    using reason by auto
  have pos: "0 < n"
    by (rule selected_positive [OF r choose])
  have drop: "dropUndersized ?r userID fp series1 n ?i0 = (?i1, 0)"
    using reason closed minlen small
    by (auto simp: dropUndersized_def Let_def foldl_Len_sum)
  from get obtain u where
    u: "map_of (userStates i) userID = Some u" and s: "map_of (fpToSeries u) fp = Some series"
    by (auto simp: getSeries_def split: option.splits)
  have sel: "lockedSection now userID fp immediate i = Inr (?i1, None)"
    using r by (simp add: lockedSection_def u s choose drop Let_def)
  then have ret: "flushUserSeries now now' q userID fp immediate i = Inr (None, ?i1)"
    by (simp add: flushUserSeries_def)
  have gone: "getSeries ?i1 userID fp = None"
    by (simp add: getSeries_removeSeries)
  show ?thesis
    using ret sel gone pos by (intro exI [of _ ?i1]) simp
qed

theorem flushUserSeries_undersize_drop_witness:
  "getSeries (exSmall (exIngester exIdle)) ''tenant-a'' 5 = Some (exSeries exIdle) \<and>
   shouldFlushSeries (cfg (exSmall (exIngester exIdle))) 400000 (exSeries exIdle) 5 False
     = reasonIdle \<and>
   selectChunks (cfg (exSmall (exIngester exIdle))) 400000 5 False (exSeries exIdle)
     = Inr (closeHead reasonIdle (exSeries exIdle), 1) \<and>
   sum_list (map (\<lambda>d. Len (C d)) (take 1 (chunkDescs (closeHead reasonIdle (exSeries exIdle)))))
     = 120 \<and>
   MinChunkLength (limits (exSmall (exIngester exIdle))) ''tenant-a'' = 200 \<and>
   flushUserSeries 400000 400100 1 ''tenant-a'' 5 False (exSmall (exIngester exIdle)) =
     Inr (None,
       (exSmall (exIngester []))
         \<lparr>userStates := [(''tenant-a'', \<lparr>fpToSeries = []\<rparr>)],
          metrics := exMetrics\<lparr>memoryChunks := 2, droppedChunks := 1\<rparr>\<rparr>)"
proof -
  have get: "getSeries (exSmall (exIngester exIdle)) ''tenant-a'' 5 = Some (exSeries exIdle)"
    by (simp add: exSmall_def exec_defs ex_defs ex2_defs)
  have idle: "shouldFlushSeries (cfg (exSmall (exIngester exIdle))) 400000 (exSeries exIdle) 5 False
      = reasonIdle"
    by (simp add: exSmall_def exec_defs ex_defs ex2_defs)
  then have reason:
    "shouldFlushSeries (cfg (exSmall (exIngester exIdle))) 400000 (exSeries exIdle) 5 False
       = reasonIdle \<or>
     shouldFlushSeries (cfg (exSmall (exIngester exIdle))) 400000 (exSeries exIdle) 5 False
       = reasonStale"
    by simp
  have choose: "selectChunks (cfg (exSmall (exIngester exIdle))) 400000 5 False (exSeries exIdle)
      = Inr (closeHead reasonIdle (exSeries exIdle), 1)"
    by (simp add: exSmall_def exec_defs ex_defs ex2_defs)
  have closed: "headChunkClosed (closeHead reasonIdle (exSeries exIdle))"
    by simp
  have minlen: "0 < MinChunkLength (limits (exSmall (exIngester exIdle))) ''tenant-a''"
    by (simp add: exSmall_def)
  have small: "sum_list (map (\<lambda>d. Len (C d))
        (take 1 (chunkDescs (closeHead reasonIdle (exSeries exIdle)))))
      < MinChunkLength (limits (exSmall (exIngester exIdle))) ''tenant-a''"
    by (simp add: exSmall_def exec_defs ex_defs ex2_defs)
  show ?thesis
    using flushUserSeries_undersize_drop [OF get reason choose closed minlen small, of 400100 1]
      get idle choose
    by (simp add: exSmall_def exec_defs ex_defs ex2_defs)
qed

subsection \<open>Flush worker\<close>

lemma set_insertOp [simp]: "set (insertOp x xs) = insert x (set xs)"
  by (induction xs) auto

lemma Enqueue_queue:
  "queue (fst (Enqueue pq x)) =
     (if Key x \<in> set (map Key (queue pq)) then queue pq else insertOp x (queue pq))"
  by (simp add: Enqueue_def)

lemma Enqueue_set: "set (queue (fst (Enqueue pq x))) \<subseteq> insert x (set (queue pq))"
  by (auto simp: Enqueue_def)


lemma lockedSection_frame:
  assumes "lockedSection now userID fp immediate i = Inr (i2, x)"
  shows "flushQueues i2 = flushQueues i \<and> cfg i2 = cfg i \<and> limits i2 = limits i \<and>
         chunkStore i2 = chunkStore i"
  using assms
  by (auto simp: lockedSection_def dropUndersized_def Let_def
      split: option.splits sum.splits if_splits prod.splits)

lemma markFlushed_frame [simp]:
  "flushQueues (markFlushed now userID fp immediate s n i) = flushQueues i"
  "cfg (markFlushed now userID fp immediate s n i) = cfg i"
  "chunkStore (markFlushed now userID fp immediate s n i) = chunkStore i"
  by (simp_all add: markFlushed_def)

lemma flushUserSeries_frame:
  assumes "flushUserSeries now now' q userID fp immediate i = Inr (e, i1)"
  shows "flushQueues i1 = flushQueues i \<and> cfg i1 = cfg i"
proof (cases "lockedSection now userID fp immediate i")
  case (Inl p)
  then show ?thesis
    using assms by (simp add: flushUserSeries_def)
next
  case (Inr res)
  obtain i2 x where res: "res = (i2, x)"
    by (cases res)
  note fr = lockedSection_frame [OF Inr [unfolded res]]
  show ?thesis
  proof (cases x)
    case None
    then show ?thesis
      using assms fr by (simp add: flushUserSeries_def Inr res)
  next
    case (Some sel)
    obtain series1 n where sel: "sel = (series1, n)"
      by (cases sel)
    show ?thesis
    proof (cases "flushChunks now' userID fp (metric series1) (take n (chunkDescs series1)) i2")
      case (Inl p)
      then show ?thesis
        using assms by (simp add: flushUserSeries_def Inr res Some sel)
    next
      case inr: (Inr out)
      obtain e3 i3 where out: "out = (e3, i3)"
        by (cases out)
      show ?thesis
      proof (cases e3)
        case None
        then show ?thesis
          using assms fr flushChunks_ok [OF inr [unfolded out None]]
          by (auto simp: flushUserSeries_def Inr res Some sel inr out)
      next
        case (Some err)
        then show ?thesis
          using assms fr flushChunks_error [OF inr [unfolded out Some]]
          by (auto simp: flushUserSeries_def Inr res \<open>x = Some sel\<close> sel inr out)
      qed
    qed
  qed
qed



subsection \<open>Sharding of the flush queues\<close>

lemma Enqueue_result:
  assumes "Enqueue pq x = (q, added)"
  shows "set (queue q) \<subseteq> insert x (set (queue pq))"
  using assms by (auto simp: Enqueue_def split: if_splits)

lemma sweepSeries_Inr:
  assumes "sweepSeries now userID fp series immediate i = Inr i1"
  shows "i1 = i \<or>
         (\<exists>c cs q added.
            chunkDescs series = c # cs \<and> ConcurrentFlushes (cfg i) \<noteq> 0 \<and>
            0 \<le> sint (fp mod ConcurrentFlushes (cfg i)) \<and>
            nat (sint (fp mod ConcurrentFlushes (cfg i))) < length (flushQueues i) \<and>
            Enqueue (flushQueues i ! nat (sint (fp mod ConcurrentFlushes (cfg i))))
              \<lparr>op_from = FirstTime c, op_userID = userID, op_fp = fp,
               op_immediate = immediate\<rparr> = (q, added) \<and>
            flushQueues i1 =
              (flushQueues i)[nat (sint (fp mod ConcurrentFlushes (cfg i))) := q] \<and>
            cfg i1 = cfg i \<and> userStates i1 = userStates i \<and> chunkStore i1 = chunkStore i \<and>
            limits i1 = limits i)"
proof (cases "chunkDescs series")
  case Nil
  then show ?thesis
    using assms by (simp add: sweepSeries_def)
next
  case (Cons c cs)
  let ?ix = "sint (fp mod ConcurrentFlushes (cfg i))"
  let ?opr = "\<lparr>op_from = FirstTime c, op_userID = userID, op_fp = fp,
               op_immediate = immediate\<rparr>"
  obtain q added where enq: "Enqueue (flushQueues i ! nat ?ix) ?opr = (q, added)"
    by (cases "Enqueue (flushQueues i ! nat ?ix) ?opr")
  show ?thesis
  proof (cases "shouldFlushSeries (cfg i) now series fp immediate = noFlush")
    case True
    then show ?thesis
      using assms Cons by (simp add: sweepSeries_def firstTime_def)
  next
    case False
    have nz: "ConcurrentFlushes (cfg i) \<noteq> 0"
      using assms Cons False by (auto simp: sweepSeries_def firstTime_def Let_def split: if_splits)
    have range: "\<not> (?ix < 0 \<or> int (length (flushQueues i)) \<le> ?ix)"
      using assms Cons False nz
      by (auto simp: sweepSeries_def firstTime_def Let_def split: if_splits)
    then have lo: "0 \<le> ?ix" and hi: "nat ?ix < length (flushQueues i)"
      by auto
    have fields: "flushQueues i1 = (flushQueues i)[nat ?ix := q] \<and>
        cfg i1 = cfg i \<and> userStates i1 = userStates i \<and> chunkStore i1 = chunkStore i \<and>
        limits i1 = limits i"
    proof (cases added)
      case True
      then show ?thesis
        using assms range
        unfolding sweepSeries_def
        by (auto simp: Cons False nz firstTime_def Let_def enq)
    next
      case False
      then show ?thesis
        using assms range
        unfolding sweepSeries_def
        by (auto simp: Cons \<open>shouldFlushSeries (cfg i) now series fp immediate \<noteq> noFlush\<close>
            nz firstTime_def Let_def enq)
    qed
    then show ?thesis
      using Cons nz lo hi enq by blast
  qed
qed


lemma nat_sint_unat:
  fixes x :: "64 word"
  assumes "0 \<le> sint x"
  shows "nat (sint x) = unat x"
  by (simp only: sint_nonneg_uint [OF assms] unat_eq_nat_uint)

lemma sweepSeries_effect:
  assumes "sweepSeries now userID fp series immediate i = Inr i1"
  shows "cfg i1 = cfg i \<and> userStates i1 = userStates i \<and> chunkStore i1 = chunkStore i \<and>
         limits i1 = limits i \<and>
         length (flushQueues i1) = length (flushQueues i) \<and>
         (\<forall>k < length (flushQueues i). k \<noteq> shardOf (cfg i) fp \<longrightarrow>
            flushQueues i1 ! k = flushQueues i ! k) \<and>
         (\<forall>k < length (flushQueues i). \<forall>x \<in> set (queue (flushQueues i1 ! k)).
            x \<in> set (queue (flushQueues i ! k)) \<or> k = shardOf (cfg i) fp \<and> op_fp x = fp)"
  using sweepSeries_Inr [OF assms]
proof
  assume "i1 = i"
  then show ?thesis
    by simp
next
  let ?ix = "sint (fp mod ConcurrentFlushes (cfg i))"
  assume "\<exists>c cs q added.
            chunkDescs series = c # cs \<and> ConcurrentFlushes (cfg i) \<noteq> 0 \<and>
            0 \<le> ?ix \<and> nat ?ix < length (flushQueues i) \<and>
            Enqueue (flushQueues i ! nat ?ix)
              \<lparr>op_from = FirstTime c, op_userID = userID, op_fp = fp,
               op_immediate = immediate\<rparr> = (q, added) \<and>
            flushQueues i1 = (flushQueues i)[nat ?ix := q] \<and>
            cfg i1 = cfg i \<and> userStates i1 = userStates i \<and> chunkStore i1 = chunkStore i \<and>
            limits i1 = limits i"
  then obtain c cs q added where all:
    "chunkDescs series = c # cs \<and> ConcurrentFlushes (cfg i) \<noteq> 0 \<and>
            0 \<le> ?ix \<and> nat ?ix < length (flushQueues i) \<and>
            Enqueue (flushQueues i ! nat ?ix)
              \<lparr>op_from = FirstTime c, op_userID = userID, op_fp = fp,
               op_immediate = immediate\<rparr> = (q, added) \<and>
            flushQueues i1 = (flushQueues i)[nat ?ix := q] \<and>
            cfg i1 = cfg i \<and> userStates i1 = userStates i \<and> chunkStore i1 = chunkStore i \<and>
            limits i1 = limits i"
    by (elim exE)
  have lo: "0 \<le> ?ix" and hi: "nat ?ix < length (flushQueues i)"
    using all by simp_all
  have enq: "Enqueue (flushQueues i ! nat ?ix)
              \<lparr>op_from = FirstTime c, op_userID = userID, op_fp = fp,
               op_immediate = immediate\<rparr> = (q, added)"
    using all by simp
  have q1: "flushQueues i1 = (flushQueues i)[nat ?ix := q]"
    using all by simp
  have k: "nat ?ix = shardOf (cfg i) fp"
    using nat_sint_unat [OF lo] by (simp add: shardOf_def unat_mod_distrib)
  have q2: "\<forall>x \<in> set (queue q). x \<in> set (queue (flushQueues i ! nat ?ix)) \<or> op_fp x = fp"
    using Enqueue_result [OF enq] by auto
  have a: "\<forall>k < length (flushQueues i). k \<noteq> shardOf (cfg i) fp \<longrightarrow>
            flushQueues i1 ! k = flushQueues i ! k"
    by (simp add: q1 k)
  have b: "\<forall>k < length (flushQueues i). \<forall>x \<in> set (queue (flushQueues i1 ! k)).
            x \<in> set (queue (flushQueues i ! k)) \<or> k = shardOf (cfg i) fp \<and> op_fp x = fp"
  proof (intro allI impI ballI)
    fix j x
    assume j: "j < length (flushQueues i)" and x: "x \<in> set (queue (flushQueues i1 ! j))"
    show "x \<in> set (queue (flushQueues i ! j)) \<or> j = shardOf (cfg i) fp \<and> op_fp x = fp"
    proof (cases "j = nat ?ix")
      case True
      then have "x \<in> set (queue q)"
        using x hi by (simp add: q1)
      then show ?thesis
        using q2 True k by auto
    next
      case False
      then show ?thesis
        using x by (simp add: q1)
    qed
  qed
  show ?thesis
    using all a b by (simp add: q1)
qed

lemma sweepSeries_sharded:
  assumes "sweepSeries now userID fp series immediate i = Inr i1" and "sharded i"
  shows "sharded i1"
  unfolding sharded_def
proof (intro allI impI ballI)
  fix j opr
  assume j: "j < length (flushQueues i1)" and x: "opr \<in> set (queue (flushQueues i1 ! j))"
  note eff = sweepSeries_effect [OF assms(1)]
  have j0: "j < length (flushQueues i)"
    using j eff by simp
  then have "opr \<in> set (queue (flushQueues i ! j)) \<or> j = shardOf (cfg i) fp \<and> op_fp opr = fp"
    using eff x by blast
  then show "shardOf (cfg i1) (op_fp opr) = j"
    using assms(2) j0 eff by (auto simp: sharded_def)
qed

lemma removeFlushedChunks_frame:
  assumes "removeFlushedChunks now userID fp series i = (series1, i1)"
  shows "flushQueues i1 = flushQueues i \<and> cfg i1 = cfg i \<and> chunkStore i1 = chunkStore i"
  using assms
  by (auto simp: removeFlushedChunks_def dropFlushed_eq Let_def split: if_splits)

lemma sweepUserSeries_sharded:
  assumes "sweepUserSeries clock immediate userID pairs (i, oldest) = Inr (i1, oldest1)"
    and "sharded i"
  shows "sharded i1"
  using assms
proof (induction pairs arbitrary: i oldest)
  case Nil
  then show ?case
    by simp
next
  case (Cons pair pairs)
  obtain fp series where pair: "pair = (fp, series)"
    by (cases pair)
  from Cons.prems(1) obtain ia where
    sw: "sweepSeries (clock userID fp) userID fp series immediate i = Inr ia"
    by (auto simp: pair split: sum.splits)
  obtain series1 ib where
    rm: "removeFlushedChunks (clock userID fp) userID fp series ia = (series1, ib)"
    by (cases "removeFlushedChunks (clock userID fp) userID fp series ia")
  have step: "sweepUserSeries clock immediate userID pairs
      (ib, older oldest (firstUnflushedChunkTime series1)) = Inr (i1, oldest1)"
    using Cons.prems(1) by (simp add: pair sw rm)
  have "sharded ia"
    by (rule sweepSeries_sharded [OF sw Cons.prems(2)])
  then have "sharded ib"
    using removeFlushedChunks_frame [OF rm] by (simp add: sharded_def)
  then show ?case
    by (rule Cons.IH [OF step])
qed

lemma sweepStates_sharded:
  assumes "sweepStates clock immediate states (i, oldest) = Inr (i1, oldest1)"
    and "sharded i"
  shows "sharded i1"
  using assms
proof (induction states arbitrary: i oldest)
  case Nil
  then show ?case
    by simp
next
  case (Cons st states)
  obtain userID state where st: "st = (userID, state)"
    by (cases st)
  from Cons.prems(1) obtain ia oa where
    inner: "sweepUserSeries clock immediate userID (fpToSeries state) (i, oldest) = Inr (ia, oa)"
    by (auto simp: st split: sum.splits)
  have step: "sweepStates clock immediate states (ia, oa) = Inr (i1, oldest1)"
    using Cons.prems(1) by (simp add: st inner)
  have "sharded ia"
    by (rule sweepUserSeries_sharded [OF inner Cons.prems(2)])
  then show ?case
    by (rule Cons.IH [OF step])
qed

lemma sweepUsers_sharded:
  assumes "sweepUsers clock immediate i = Inr i1" and "sharded i"
  shows "sharded i1"
proof (cases "chunkStore i = None")
  case True
  then show ?thesis
    using assms by (simp add: sweepUsers_def)
next
  case False
  from assms(1) False obtain ia oa where
    run: "sweepStates clock immediate (userStates i) (i, 0) = Inr (ia, oa)" and
    i1: "i1 = ia\<lparr>metrics := (metrics ia)\<lparr>oldestUnflushedChunkTimestamp := Unix oa\<rparr>\<rparr>"
    by (auto simp: sweepUsers_def split: sum.splits)
  have "sharded ia"
    by (rule sweepStates_sharded [OF run assms(2)])
  then show ?thesis
    by (simp add: i1 sharded_def)
qed


lemma flushLoopStep_sharded:
  assumes "flushLoopStep now now' j i = Inr (r, i1)" and "sharded i"
  shows "sharded i1"
proof (cases "Dequeue (flushQueues i ! j)")
  case Blocks
  then show ?thesis
    using assms by (auto simp: flushLoopStep_def split: if_splits)
next
  case Nil
  then show ?thesis
    using assms by (auto simp: flushLoopStep_def split: if_splits)
next
  case (Got opr q)
  have j: "j < length (flushQueues i)"
    using assms(1) by (auto simp: flushLoopStep_def split: if_splits)
  obtain rest where q0: "queue (flushQueues i ! j) = opr # rest" and
    q: "q = (flushQueues i ! j)\<lparr>queue := rest\<rparr>"
    using Got by (auto simp: Dequeue_def split: list.splits if_splits)
  let ?i0 = "i\<lparr>flushQueues := (flushQueues i)[j := q]\<rparr>"
  have home: "shardOf (cfg i) (op_fp opr) = j"
    using assms(2) j q0 by (auto simp: sharded_def)
  have s0: "sharded ?i0"
    unfolding sharded_def
  proof (intro allI impI ballI)
    fix k x
    assume k: "k < length (flushQueues ?i0)" and x: "x \<in> set (queue (flushQueues ?i0 ! k))"
    have "x \<in> set (queue (flushQueues i ! k))"
      using k x q0 by (cases "k = j") (auto simp: q)
    then show "shardOf (cfg ?i0) (op_fp x) = k"
      using assms(2) k by (auto simp: sharded_def)
  qed
  obtain e ia where run:
    "flushUserSeries now now' j (op_userID opr) (op_fp opr) (op_immediate opr) ?i0 = Inr (e, ia)"
    using assms(1) j Got
    by (cases "flushUserSeries now now' j (op_userID opr) (op_fp opr) (op_immediate opr) ?i0")
      (auto simp: flushLoopStep_def)
  note fr = flushUserSeries_frame [OF run]
  have sa: "sharded ia"
    using s0 fr by (simp add: sharded_def)
  show ?thesis
  proof (cases "op_immediate opr \<and> e \<noteq> None")
    case False
    then have "i1 = ia"
      using assms(1) j Got run by (auto simp: flushLoopStep_def)
    then show ?thesis
      using sa by simp
  next
    case True
    let ?opr = "opr\<lparr>op_from := Add (op_from opr) flushBackoff\<rparr>"
    obtain q1 added where enq: "Enqueue (flushQueues ia ! j) ?opr = (q1, added)"
      by (cases "Enqueue (flushQueues ia ! j) ?opr")
    have i1: "i1 = ia\<lparr>flushQueues := (flushQueues ia)[j := q1]\<rparr>"
      using assms(1) j Got run True enq by (auto simp: flushLoopStep_def Let_def)
    have sub: "set (queue q1) \<subseteq> insert ?opr (set (queue (flushQueues ia ! j)))"
      by (rule Enqueue_result [OF enq])
    show ?thesis
      unfolding sharded_def
    proof (intro allI impI ballI)
      fix k x
      assume k: "k < length (flushQueues i1)" and x: "x \<in> set (queue (flushQueues i1 ! k))"
      have ka: "k < length (flushQueues ia)"
        using k by (simp add: i1)
      show "shardOf (cfg i1) (op_fp x) = k"
      proof (cases "k = j")
        case False
        then have "x \<in> set (queue (flushQueues ia ! k))"
          using x by (simp add: i1)
        then show ?thesis
          using sa ka by (auto simp: sharded_def i1)
      next
        case True
        then have "x \<in> set (queue q1)"
          using x ka by (simp add: i1)
        then have "x = ?opr \<or> x \<in> set (queue (flushQueues ia ! j))"
          using sub by auto
        then show ?thesis
        proof
          assume "x = ?opr"
          then show ?thesis
            using home fr True by (simp add: i1)
        next
          assume "x \<in> set (queue (flushQueues ia ! j))"
          then show ?thesis
            using sa ka True by (auto simp: sharded_def i1)
        qed
      qed
    qed
  qed
qed

text \<open>
  Claim C9. The shard of a fingerprint is \<open>fp mod ConcurrentFlushes\<close>. In a state where
  every queued operation sits in the queue of the shard of its fingerprint,
  \<open>sweepSeries\<close> changes no queue but the one of the shard of \<open>fp\<close>, and what it adds
  there is an operation for \<open>fp\<close>; and after \<open>sweepSeries\<close>, after a whole \<open>sweepUsers\<close>
  and after an iteration of a worker, retry included, every queued operation still
  sits in the queue of the shard of its fingerprint. The empty queues an ingester
  starts with are such a state, so all operations for a fingerprint land on the same
  queue.
\<close>

theorem sharding_invariant:
  assumes "sharded i"
  shows "(\<forall>i1. sweepSeries now userID fp series immediate i = Inr i1 \<longrightarrow>
            sharded i1 \<and>
            (\<forall>k < length (flushQueues i). k \<noteq> shardOf (cfg i) fp \<longrightarrow>
               flushQueues i1 ! k = flushQueues i ! k) \<and>
            (\<forall>k < length (flushQueues i). \<forall>x \<in> set (queue (flushQueues i1 ! k)).
               x \<in> set (queue (flushQueues i ! k)) \<or>
               k = shardOf (cfg i) fp \<and> op_fp x = fp)) \<and>
         (\<forall>i1. sweepUsers clock immediate i = Inr i1 \<longrightarrow> sharded i1) \<and>
         (\<forall>r i1. flushLoopStep now1 now2 j i = Inr (r, i1) \<longrightarrow> sharded i1)"
proof -
  have a: "\<forall>i1. sweepSeries now userID fp series immediate i = Inr i1 \<longrightarrow>
            sharded i1 \<and>
            (\<forall>k < length (flushQueues i). k \<noteq> shardOf (cfg i) fp \<longrightarrow>
               flushQueues i1 ! k = flushQueues i ! k) \<and>
            (\<forall>k < length (flushQueues i). \<forall>x \<in> set (queue (flushQueues i1 ! k)).
               x \<in> set (queue (flushQueues i ! k)) \<or>
               k = shardOf (cfg i) fp \<and> op_fp x = fp)"
  proof (intro allI impI)
    fix i1
    assume sw: "sweepSeries now userID fp series immediate i = Inr i1"
    have "sharded i1"
      by (rule sweepSeries_sharded [OF sw assms])
    then show "sharded i1 \<and>
            (\<forall>k < length (flushQueues i). k \<noteq> shardOf (cfg i) fp \<longrightarrow>
               flushQueues i1 ! k = flushQueues i ! k) \<and>
            (\<forall>k < length (flushQueues i). \<forall>x \<in> set (queue (flushQueues i1 ! k)).
               x \<in> set (queue (flushQueues i ! k)) \<or>
               k = shardOf (cfg i) fp \<and> op_fp x = fp)"
      using sweepSeries_effect [OF sw] by blast
  qed
  have b: "\<forall>i1. sweepUsers clock immediate i = Inr i1 \<longrightarrow> sharded i1"
    using sweepUsers_sharded [OF _ assms] by blast
  have c: "\<forall>r i1. flushLoopStep now1 now2 j i = Inr (r, i1) \<longrightarrow> sharded i1"
    using flushLoopStep_sharded [OF _ assms] by blast
  show ?thesis
    using a b c by blast
qed

lemmas sweep_defs = sweepUsers_def sweepSeries_def removeFlushedChunks_def older_def Unix_def
  second_def quo64_def signed_divide_int_def firstTime_def firstUnflushedChunkTime_def
  Enqueue_def String.simps

theorem sharding_invariant_witness:
  "sharded (exIngester exIdle) \<and>
   shardOf (cfg (exIngester exIdle)) 5 = 1 \<and>
   sweepUsers (\<lambda>u f. 400000) False (exIngester exIdle) =
     Inr ((exQueued [exOp 1000 5 False] (exIngester exIdle))
       \<lparr>metrics := exMetrics\<lparr>flushReasons := (\<lambda>_. 0)(''Idle'' := 1),
                               oldestUnflushedChunkTimestamp := 1\<rparr>\<rparr>) \<and>
   sharded ((exQueued [exOp 1000 5 False] (exIngester exIdle))
       \<lparr>metrics := exMetrics\<lparr>flushReasons := (\<lambda>_. 0)(''Idle'' := 1),
                               oldestUnflushedChunkTimestamp := 1\<rparr>\<rparr>)"
proof -
  have start: "sharded (exIngester exIdle)"
    by (simp add: sharded_def exIngester_def exQueue_def nth_Cons')
  have shard: "shardOf (cfg (exIngester exIdle)) 5 = 1"
    by (simp add: shardOf_def exIngester_def exConfig_def)
  have sweep: "sweepUsers (\<lambda>u f. 400000) False (exIngester exIdle) =
     Inr ((exQueued [exOp 1000 5 False] (exIngester exIdle))
       \<lparr>metrics := exMetrics\<lparr>flushReasons := (\<lambda>_. 0)(''Idle'' := 1),
                               oldestUnflushedChunkTimestamp := 1\<rparr>\<rparr>)"
    by (simp add: sweep_defs exQueued_def exOp_def exec_defs ex_defs ex2_defs)
  show ?thesis
    using sharding_invariant [OF start, where clock = "\<lambda>u f. 400000" and immediate = False]
      start shard sweep
    by blast
qed

subsection \<open>Oldest unflushed chunk gauge\<close>

lemma firstUnflushed_dropFlushed:
  "firstUnflushed (fst (dropFlushed retain now cs mc)) = firstUnflushed cs"
  by (induction cs arbitrary: mc) simp_all

lemma firstUnflushedChunkTime_removeFlushedChunks:
  "firstUnflushedChunkTime (fst (removeFlushedChunks now userID fp series i)) =
   firstUnflushedChunkTime series"
  using firstUnflushed_dropFlushed [of "RetainPeriod (cfg i)" now "chunkDescs series" "memoryChunks (metrics i)"]
  by (auto simp: removeFlushedChunks_def firstUnflushedChunkTime_def Let_def split: prod.splits)

lemma sweepUserSeries_oldest:
  "sweepUserSeries clock immediate userID pairs (i, oldest) = Inr (i1, oldest1) \<Longrightarrow>
   oldest1 = foldl older oldest (map (\<lambda>p. firstUnflushedChunkTime (snd p)) pairs)"
proof (induction pairs arbitrary: i oldest)
  case Nil
  then show ?case by simp
next
  case (Cons p pairs)
  obtain fp series where p: "p = (fp, series)" by (cases p)
  from Cons.prems obtain i0 where
    sw: "sweepSeries (clock userID fp) userID fp series immediate i = Inr i0"
    by (auto simp: p split: sum.splits)
  obtain series1 i2 where
    rm: "removeFlushedChunks (clock userID fp) userID fp series i0 = (series1, i2)"
    by (cases "removeFlushedChunks (clock userID fp) userID fp series i0")
  have f: "firstUnflushedChunkTime series1 = firstUnflushedChunkTime series"
    using firstUnflushedChunkTime_removeFlushedChunks [of "clock userID fp" userID fp series i0]
    by (simp add: rm)
  from Cons.prems have
    "sweepUserSeries clock immediate userID pairs
       (i2, older oldest (firstUnflushedChunkTime series)) = Inr (i1, oldest1)"
    by (simp add: p sw rm f)
  from Cons.IH [OF this] show ?case by (simp add: p)
qed

lemma sweepStates_oldest:
  "sweepStates clock immediate states (i, oldest) = Inr (i1, oldest1) \<Longrightarrow>
   oldest1 = foldl older oldest
     (map firstUnflushedChunkTime
        (concat (map (\<lambda>(userID, state). map snd (fpToSeries state)) states)))"
proof (induction states arbitrary: i oldest)
  case Nil
  then show ?case by simp
next
  case (Cons p states)
  obtain userID state where p: "p = (userID, state)" by (cases p)
  from Cons.prems obtain i0 oldest0 where
    us: "sweepUserSeries clock immediate userID (fpToSeries state) (i, oldest) = Inr (i0, oldest0)"
    and rest: "sweepStates clock immediate states (i0, oldest0) = Inr (i1, oldest1)"
    by (auto simp: p split: sum.splits)
  from sweepUserSeries_oldest [OF us] Cons.IH [OF rest] show ?case
    by (simp add: p comp_def)
qed

lemma older_cases:
  "older acc t = (if 0 <s t \<and> (acc = 0 \<or> t <s acc) then t else acc)"
  by (simp add: older_def)

lemma foldl_older_min:
  "acc = 0 \<or> 0 <s acc \<Longrightarrow>
   (if acc = 0 \<and> filter (\<lambda>t. 0 <s t) ts = [] then foldl older acc ts = 0
    else 0 <s foldl older acc ts \<and> foldl older acc ts \<in> set (acc # ts) \<and>
         (acc \<noteq> 0 \<longrightarrow> foldl older acc ts \<le>s acc) \<and>
         (\<forall>t\<in>set ts. 0 <s t \<longrightarrow> foldl older acc ts \<le>s t))"
proof (induction ts arbitrary: acc)
  case Nil
  then show ?case by (auto simp: word_sle_eq)
next
  case (Cons t ts)
  let ?a = "older acc t"
  have a: "?a = 0 \<or> 0 <s ?a" using Cons.prems by (auto simp: older_def)
  note ih = Cons.IH [OF a]
  show ?case
  proof (cases "0 <s t \<and> (acc = 0 \<or> t <s acc)")
    case True
    then have o: "?a = t" by (simp add: older_def)
    from True have t0: "t \<noteq> 0" by (auto simp: word_sless_alt)
    from ih True t0 show ?thesis
      unfolding foldl_Cons o
      by (auto simp: word_sle_eq word_sless_alt)
  next
    case False
    then have o: "?a = acc" by (auto simp: older_def)
    from ih False Cons.prems show ?thesis
      unfolding foldl_Cons o
      by (auto simp: word_sle_eq word_sless_alt split: if_splits)
  qed
qed

lemma foldl_older_minUnflushed:
  "foldl older 0 (map firstUnflushedChunkTime ss) = minUnflushed ss"
proof -
  let ?ts = "map firstUnflushedChunkTime ss"
  let ?ps = "filter (\<lambda>t. 0 <s t) ?ts"
  let ?r = "foldl older 0 ?ts"
  note m = foldl_older_min [of 0 ?ts]
  show ?thesis
  proof (cases "?ps = []")
    case True
    with m show ?thesis by (simp add: minUnflushed_def Let_def)
  next
    case False
    with m have pos: "0 <s ?r" and mem: "?r \<in> set (0 # ?ts)"
      and low: "\<forall>t\<in>set ?ts. 0 <s t \<longrightarrow> ?r \<le>s t" by simp_all
    from pos have "?r \<noteq> 0" by (auto simp: word_sless_alt)
    with mem have mem': "?r \<in> set ?ts" by simp
    have "Min (set (map sint ?ps)) = sint ?r"
    proof (rule Min_eqI)
      show "finite (set (map sint ?ps))" by simp
      show "\<And>y. y \<in> set (map sint ?ps) \<Longrightarrow> sint ?r \<le> y"
        using low by (auto simp: word_sle_eq)
      show "sint ?r \<in> set (map sint ?ps)" using mem' pos by auto
    qed
    with False show ?thesis by (simp add: minUnflushed_def Let_def)
  qed
qed

lemma removeFlushedChunks_getSeries:
  assumes "removeFlushedChunks now u fp s i = (s1, i1)" and "getSeries i u fp \<noteq> None"
  shows "getSeries i1 u' fp' =
           (if u' = u \<and> fp' = fp then reaped (cfg i) now s else getSeries i u' fp')"
  using assms
  by (auto simp: removeFlushedChunks_def dropFlushed_eq Let_def reaped_def
      getSeries_writeSeries getSeries_removeSeries split: if_splits)

lemma sweepUserSeries_getSeries:
  assumes "sweepUserSeries clock immediate u pairs (i, oldest) = Inr (i1, oldest1)"
    and "distinct (map fst pairs)"
    and "\<forall>p \<in> set pairs. getSeries i u (fst p) = Some (snd p)"
  shows "cfg i1 = cfg i \<and>
         (\<forall>u' fp'. getSeries i1 u' fp' =
            (if u' = u \<and> fp' \<in> fst ` set pairs
             then Option.bind (getSeries i u' fp') (reaped (cfg i) (clock u' fp'))
             else getSeries i u' fp'))"
  using assms
proof (induction pairs arbitrary: i oldest)
  case Nil
  then show ?case by simp
next
  case (Cons pair pairs)
  obtain fp series where pair: "pair = (fp, series)"
    by (cases pair)
  from Cons.prems(1) obtain ia where
    sw: "sweepSeries (clock u fp) u fp series immediate i = Inr ia"
    by (auto simp: pair split: sum.splits)
  obtain series1 ib where
    rm: "removeFlushedChunks (clock u fp) u fp series ia = (series1, ib)"
    by (cases "removeFlushedChunks (clock u fp) u fp series ia")
  have step: "sweepUserSeries clock immediate u pairs
      (ib, older oldest (firstUnflushedChunkTime series1)) = Inr (i1, oldest1)"
    using Cons.prems(1) by (simp add: pair sw rm)
  from sweepSeries_effect [OF sw] have ca: "cfg ia = cfg i" and ua: "userStates ia = userStates i"
    by simp_all
  have ga: "getSeries ia = getSeries i"
    by (rule getSeries_cong [OF ua])
  have here: "getSeries i u fp = Some series"
    using Cons.prems(3) by (simp add: pair)
  have cb: "cfg ib = cfg i"
    using removeFlushedChunks_frame [OF rm] ca by simp
  have gb: "getSeries ib u' fp' =
      (if u' = u \<and> fp' = fp then reaped (cfg i) (clock u fp) series else getSeries i u' fp')"
    for u' fp'
    using removeFlushedChunks_getSeries [OF rm, of u' fp'] here by (simp add: ga ca)
  have notin: "fp \<notin> fst ` set pairs"
    using Cons.prems(2) by (simp add: pair)
  have rest: "\<forall>p \<in> set pairs. getSeries ib u (fst p) = Some (snd p)"
  proof
    fix p assume p: "p \<in> set pairs"
    then have "fst p \<noteq> fp" using notin by auto
    then show "getSeries ib u (fst p) = Some (snd p)"
      using Cons.prems(3) p by (simp add: gb)
  qed
  have d: "distinct (map fst pairs)"
    using Cons.prems(2) by simp
  note ih = Cons.IH [OF step d rest]
  show ?case
  proof (intro conjI allI)
    show "cfg i1 = cfg i" using ih cb by simp
  next
    fix u' fp'
    show "getSeries i1 u' fp' =
            (if u' = u \<and> fp' \<in> fst ` set (pair # pairs)
             then Option.bind (getSeries i u' fp') (reaped (cfg i) (clock u' fp'))
             else getSeries i u' fp')"
      using ih notin here by (auto simp: gb cb pair)
  qed
qed

lemma sweepStates_getSeries:
  assumes "sweepStates clock immediate states (i, oldest) = Inr (i1, oldest1)"
    and "distinct (map fst states)"
    and "\<forall>p \<in> set states. distinct (map fst (fpToSeries (snd p))) \<and>
           (\<forall>q \<in> set (fpToSeries (snd p)). getSeries i (fst p) (fst q) = Some (snd q))"
  shows "cfg i1 = cfg i \<and>
         (\<forall>u' fp'. getSeries i1 u' fp' =
            (if \<exists>st. (u', st) \<in> set states \<and> fp' \<in> fst ` set (fpToSeries st)
             then Option.bind (getSeries i u' fp') (reaped (cfg i) (clock u' fp'))
             else getSeries i u' fp'))"
  using assms
proof (induction states arbitrary: i oldest)
  case Nil
  then show ?case by simp
next
  case (Cons p states)
  obtain u state where p: "p = (u, state)"
    by (cases p)
  from Cons.prems(1) obtain ia oa where
    inner: "sweepUserSeries clock immediate u (fpToSeries state) (i, oldest) = Inr (ia, oa)"
    and outer: "sweepStates clock immediate states (ia, oa) = Inr (i1, oldest1)"
    by (auto simp: p split: sum.splits)
  have dfp: "distinct (map fst (fpToSeries state))"
    and cur: "\<forall>q \<in> set (fpToSeries state). getSeries i u (fst q) = Some (snd q)"
    using Cons.prems(3) by (simp_all add: p)
  note a = sweepUserSeries_getSeries [OF inner dfp cur]
  have notin: "u \<notin> fst ` set states"
    using Cons.prems(2) by (simp add: p)
  have d: "distinct (map fst states)"
    using Cons.prems(2) by simp
  have rest: "\<forall>p \<in> set states. distinct (map fst (fpToSeries (snd p))) \<and>
           (\<forall>q \<in> set (fpToSeries (snd p)). getSeries ia (fst p) (fst q) = Some (snd q))"
  proof
    fix p' assume p': "p' \<in> set states"
    then have "fst p' \<noteq> u" using notin by auto
    then show "distinct (map fst (fpToSeries (snd p'))) \<and>
           (\<forall>q \<in> set (fpToSeries (snd p')). getSeries ia (fst p') (fst q) = Some (snd q))"
      using Cons.prems(3) p' a by simp
  qed
  note ih = Cons.IH [OF outer d rest]
  have same: "(u, st) \<in> set states \<Longrightarrow> False" for st
    using notin by force
  show ?case
  proof (intro conjI allI)
    show "cfg i1 = cfg i" using ih a by simp
  next
    fix u' fp'
    show "getSeries i1 u' fp' =
            (if \<exists>st. (u', st) \<in> set (p # states) \<and> fp' \<in> fst ` set (fpToSeries st)
             then Option.bind (getSeries i u' fp') (reaped (cfg i) (clock u' fp'))
             else getSeries i u' fp')"
    proof (cases "u' = u")
      case True
      then have "getSeries i1 u' fp' = getSeries ia u' fp'"
        using ih same by auto
      then show ?thesis
        using a True same by (auto simp: p)
    next
      case False
      then show ?thesis
        using ih a by (auto simp: p)
    qed
  qed
qed

lemma wellFormed_getSeries:
  assumes "wellFormed i"
  shows "getSeries i u fp = Some s \<longleftrightarrow>
         (\<exists>st. (u, st) \<in> set (userStates i) \<and> (fp, s) \<in> set (fpToSeries st))"
proof -
  have du: "distinct (map fst (userStates i))"
    and ds: "\<And>u st. (u, st) \<in> set (userStates i) \<Longrightarrow> distinct (map fst (fpToSeries st))"
    using assms by (auto simp: wellFormed_def list_all_iff)
  show ?thesis
  proof
    assume "getSeries i u fp = Some s"
    then obtain st where st: "map_of (userStates i) u = Some st"
      and s: "map_of (fpToSeries st) fp = Some s"
      by (auto simp: getSeries_def split: option.splits)
    from st have "(u, st) \<in> set (userStates i)" by (rule map_of_SomeD)
    moreover from s have "(fp, s) \<in> set (fpToSeries st)" by (rule map_of_SomeD)
    ultimately show "\<exists>st. (u, st) \<in> set (userStates i) \<and> (fp, s) \<in> set (fpToSeries st)"
      by blast
  next
    assume "\<exists>st. (u, st) \<in> set (userStates i) \<and> (fp, s) \<in> set (fpToSeries st)"
    then obtain st where st: "(u, st) \<in> set (userStates i)" and s: "(fp, s) \<in> set (fpToSeries st)"
      by blast
    from st du have "map_of (userStates i) u = Some st" by simp
    moreover from s ds [OF st] have "map_of (fpToSeries st) fp = Some s" by simp
    ultimately show "getSeries i u fp = Some s" by (simp add: getSeries_def)
  qed
qed

lemma allSeries_iff:
  "s \<in> set (allSeries i) \<longleftrightarrow>
   (\<exists>u st fp. (u, st) \<in> set (userStates i) \<and> (fp, s) \<in> set (fpToSeries st))"
proof
  assume "s \<in> set (allSeries i)"
  then obtain p where p: "p \<in> set (userStates i)" and "s \<in> snd ` set (fpToSeries (snd p))"
    by (force simp: allSeries_def split: prod.splits)
  then obtain q where q: "q \<in> set (fpToSeries (snd p))" and s: "s = snd q"
    by blast
  from p q have "(fst p, snd p) \<in> set (userStates i) \<and> (fst q, s) \<in> set (fpToSeries (snd p))"
    by (simp add: s)
  then show "\<exists>u st fp. (u, st) \<in> set (userStates i) \<and> (fp, s) \<in> set (fpToSeries st)"
    by blast
next
  assume "\<exists>u st fp. (u, st) \<in> set (userStates i) \<and> (fp, s) \<in> set (fpToSeries st)"
  then obtain u st fp where "(u, st) \<in> set (userStates i)" "(fp, s) \<in> set (fpToSeries st)"
    by blast
  then show "s \<in> set (allSeries i)"
    by (force simp: allSeries_def)
qed

lemma wellFormed_allSeries:
  assumes "wellFormed i"
  shows "s \<in> set (allSeries i) \<longleftrightarrow> (\<exists>u fp. getSeries i u fp = Some s)"
  unfolding allSeries_iff wellFormed_getSeries [OF assms] by blast

lemma sweepStates_wellFormed_getSeries:
  assumes "sweepStates clock immediate (userStates i) (i, oldest) = Inr (i1, oldest1)"
    and "wellFormed i"
  shows "getSeries i1 u fp = Option.bind (getSeries i u fp) (reaped (cfg i) (clock u fp))"
proof -
  have du: "distinct (map fst (userStates i))"
    using assms(2) by (simp add: wellFormed_def)
  have pre: "\<forall>p \<in> set (userStates i). distinct (map fst (fpToSeries (snd p))) \<and>
           (\<forall>q \<in> set (fpToSeries (snd p)). getSeries i (fst p) (fst q) = Some (snd q))"
  proof (intro ballI conjI)
    fix p assume "p \<in> set (userStates i)"
    then show "distinct (map fst (fpToSeries (snd p)))"
      using assms(2) by (auto simp: wellFormed_def list_all_iff)
  next
    fix p q assume "p \<in> set (userStates i)" "q \<in> set (fpToSeries (snd p))"
    then have "(fst p, snd p) \<in> set (userStates i) \<and> (fst q, snd q) \<in> set (fpToSeries (snd p))"
      by simp
    then show "getSeries i (fst p) (fst q) = Some (snd q)"
      unfolding wellFormed_getSeries [OF assms(2)] by blast
  qed
  note a = sweepStates_getSeries [OF assms(1) du pre]
  show ?thesis
  proof (cases "getSeries i u fp")
    case None
    then show ?thesis using a by simp
  next
    case (Some s)
    then obtain st where "(u, st) \<in> set (userStates i)" "(fp, s) \<in> set (fpToSeries st)"
      unfolding wellFormed_getSeries [OF assms(2)] by blast
    then have "\<exists>st. (u, st) \<in> set (userStates i) \<and> fp \<in> fst ` set (fpToSeries st)"
      by force
    then show ?thesis using a by simp
  qed
qed

lemma firstUnflushed_dropWhile:
  "firstUnflushed (dropWhile (\<lambda>c. flushed c \<and> Q c) cs) = firstUnflushed cs"
  by (induction cs) auto

lemma reaped_Some:
  "reaped conf now s = Some s1 \<Longrightarrow> firstUnflushedChunkTime s1 = firstUnflushedChunkTime s"
  by (auto simp: reaped_def firstUnflushedChunkTime_def Let_def firstUnflushed_dropWhile
      split: if_splits)

lemma reaped_None:
  assumes "reaped conf now s = None"
  shows "firstUnflushedChunkTime s = 0"
proof -
  let ?P = "\<lambda>c. flushed c \<and> RetainPeriod conf <s Sub now (LastUpdate c)"
  from assms have "dropWhile ?P (chunkDescs s) = []"
    by (simp add: reaped_def Let_def split: if_splits)
  then have "firstUnflushed (dropWhile ?P (chunkDescs s)) = 0"
    by (simp only: firstUnflushed.simps)
  then show ?thesis
    by (simp add: firstUnflushedChunkTime_def firstUnflushed_dropWhile)
qed

lemma map_entry_all:
  "list_all (\<lambda>(k, v). Q v) xs \<Longrightarrow> (\<And>v. Q v \<Longrightarrow> Q (f v)) \<Longrightarrow>
   list_all (\<lambda>(k, v). Q v) (AList.map_entry k f xs)"
  by (induction xs) auto

lemma wellFormed_onUserState:
  assumes "wellFormed i"
    and "\<And>st. distinct (map fst (fpToSeries st)) \<Longrightarrow> distinct (map fst (fpToSeries (f st)))"
  shows "wellFormed (onUserState u f i)"
  using assms(1) map_entry_all [of "\<lambda>st. distinct (map fst (fpToSeries st))" "userStates i" f u]
    assms(2)
  by (simp add: wellFormed_def onUserState_def map_entry_keys)

lemma wellFormed_cong: "userStates i = userStates i' \<Longrightarrow> wellFormed i = wellFormed i'"
  by (simp add: wellFormed_def)

lemma removeFlushedChunks_wellFormed:
  assumes "removeFlushedChunks now u fp s i = (s1, i1)" and "wellFormed i"
  shows "wellFormed i1"
proof -
  obtain cds mc where df: "dropFlushed (RetainPeriod (cfg i)) now (chunkDescs s)
      (memoryChunks (metrics i)) = (cds, mc)"
    by (cases "dropFlushed (RetainPeriod (cfg i)) now (chunkDescs s) (memoryChunks (metrics i))")
  let ?w = "writeSeries u fp (s\<lparr>chunkDescs := cds\<rparr>) i"
  have w: "wellFormed ?w"
    unfolding writeSeries_def
    by (rule wellFormed_onUserState [OF assms(2)]) (simp add: map_entry_keys)
  have r: "wellFormed (onUserState u (removeSeries fp (metric s)) ?w)"
    by (rule wellFormed_onUserState [OF w]) (simp add: removeSeries_def distinct_delete)
  have "userStates i1 = userStates (if cds = [] then onUserState u (removeSeries fp (metric s)) ?w
      else ?w)"
    using assms(1) by (auto simp: removeFlushedChunks_def df Let_def onUserState_def)
  from wellFormed_cong [OF this] w r show ?thesis
    by (simp split: if_splits)
qed

lemma sweepUserSeries_wellFormed:
  assumes "sweepUserSeries clock immediate u pairs (i, oldest) = Inr (i1, oldest1)"
    and "wellFormed i"
  shows "wellFormed i1"
  using assms
proof (induction pairs arbitrary: i oldest)
  case Nil
  then show ?case by simp
next
  case (Cons pair pairs)
  obtain fp series where pair: "pair = (fp, series)"
    by (cases pair)
  from Cons.prems(1) obtain ia where
    sw: "sweepSeries (clock u fp) u fp series immediate i = Inr ia"
    by (auto simp: pair split: sum.splits)
  obtain series1 ib where
    rm: "removeFlushedChunks (clock u fp) u fp series ia = (series1, ib)"
    by (cases "removeFlushedChunks (clock u fp) u fp series ia")
  have step: "sweepUserSeries clock immediate u pairs
      (ib, older oldest (firstUnflushedChunkTime series1)) = Inr (i1, oldest1)"
    using Cons.prems(1) by (simp add: pair sw rm)
  from sweepSeries_effect [OF sw] have "userStates ia = userStates i"
    by simp
  from wellFormed_cong [OF this] Cons.prems(2) have "wellFormed ia"
    by simp
  then have "wellFormed ib"
    by (rule removeFlushedChunks_wellFormed [OF rm])
  then show ?case
    by (rule Cons.IH [OF step])
qed

lemma sweepStates_wellFormed:
  assumes "sweepStates clock immediate states (i, oldest) = Inr (i1, oldest1)"
    and "wellFormed i"
  shows "wellFormed i1"
  using assms
proof (induction states arbitrary: i oldest)
  case Nil
  then show ?case by simp
next
  case (Cons p states)
  obtain u state where p: "p = (u, state)"
    by (cases p)
  from Cons.prems(1) obtain ia oa where
    inner: "sweepUserSeries clock immediate u (fpToSeries state) (i, oldest) = Inr (ia, oa)"
    and outer: "sweepStates clock immediate states (ia, oa) = Inr (i1, oldest1)"
    by (auto simp: p split: sum.splits)
  from sweepUserSeries_wellFormed [OF inner Cons.prems(2)] show ?case
    by (rule Cons.IH [OF outer])
qed

lemma minUnflushed_set:
  "minUnflushed ss =
     (if {t \<in> firstUnflushedChunkTime ` set ss. 0 <s t} = {} then 0
      else word_of_int (Min (sint ` {t \<in> firstUnflushedChunkTime ` set ss. 0 <s t})))"
proof -
  let ?ts = "filter (\<lambda>t. 0 <s t) (map firstUnflushedChunkTime ss)"
  have s: "set ?ts = {t \<in> firstUnflushedChunkTime ` set ss. 0 <s t}"
    by auto
  have "minUnflushed ss = (if set ?ts = {} then 0 else word_of_int (Min (sint ` set ?ts)))"
    by (simp add: minUnflushed_def Let_def del: set_filter)
  then show ?thesis
    unfolding s .
qed

lemma sweepStates_minUnflushed:
  assumes "sweepStates clock immediate (userStates i) (i, oldest) = Inr (i1, oldest1)"
    and "wellFormed i"
  shows "minUnflushed (allSeries i1) = minUnflushed (allSeries i)"
proof -
  note wf1 = sweepStates_wellFormed [OF assms]
  note g = sweepStates_wellFormed_getSeries [OF assms]
  have "{t \<in> firstUnflushedChunkTime ` set (allSeries i1). 0 <s t} =
        {t \<in> firstUnflushedChunkTime ` set (allSeries i). 0 <s t}" (is "?A = ?B")
  proof (intro equalityI subsetI)
    fix t assume "t \<in> ?A"
    then obtain s1 where s1: "s1 \<in> set (allSeries i1)" and t: "t = firstUnflushedChunkTime s1"
      and pos: "0 <s t"
      by auto
    from s1 obtain u fp where "getSeries i1 u fp = Some s1"
      unfolding wellFormed_allSeries [OF wf1] by blast
    then obtain s where s: "getSeries i u fp = Some s"
      and r: "reaped (cfg i) (clock u fp) s = Some s1"
      by (auto simp: g [of u fp] bind_eq_Some_conv)
    from s have "s \<in> set (allSeries i)"
      unfolding wellFormed_allSeries [OF assms(2)] by blast
    with reaped_Some [OF r] t pos show "t \<in> ?B"
      by auto
  next
    fix t assume "t \<in> ?B"
    then obtain s where s: "s \<in> set (allSeries i)" and t: "t = firstUnflushedChunkTime s"
      and pos: "0 <s t"
      by auto
    from s obtain u fp where get: "getSeries i u fp = Some s"
      unfolding wellFormed_allSeries [OF assms(2)] by blast
    from pos have "t \<noteq> 0"
      by (auto simp: word_sless_alt)
    with reaped_None [of "cfg i" "clock u fp" s] t
    obtain s1 where r: "reaped (cfg i) (clock u fp) s = Some s1"
      by (cases "reaped (cfg i) (clock u fp) s") auto
    from get r have "getSeries i1 u fp = Some s1"
      by (simp add: g [of u fp])
    then have "s1 \<in> set (allSeries i1)"
      unfolding wellFormed_allSeries [OF wf1] by blast
    then have "firstUnflushedChunkTime s1 \<in> firstUnflushedChunkTime ` set (allSeries i1)"
      by (rule imageI)
    with reaped_Some [OF r] t pos show "t \<in> ?A"
      by simp
  qed
  then show ?thesis
    by (simp only: minUnflushed_set)
qed

text \<open>
  Claim C7, as stated, fails on the code: the gauge is not set to the minimum itself
  but to \<open>oldest.Unix()\<close> (line 137), the minimum in whole seconds. The only series of
  the example has one unflushed chunk that starts at 1500 milliseconds; the minimum
  is 1500 before and after the sweep, and the sweep sets the gauge to 1.
\<close>

theorem oldest_gauge_claim_counterexample:
  "sweepUsers (\<lambda>u f. 400000) False (exIngester exHalf) =
     Inr ((exIngester exHalf)
            \<lparr>metrics := exMetrics\<lparr>oldestUnflushedChunkTimestamp := 1\<rparr>\<rparr>) \<and>
   chunkStore (exIngester exHalf) \<noteq> None \<and>
   minUnflushed (allSeries (exIngester exHalf)) = 1500 \<and>
   minUnflushed (allSeries ((exIngester exHalf)
            \<lparr>metrics := exMetrics\<lparr>oldestUnflushedChunkTimestamp := 1\<rparr>\<rparr>)) = 1500 \<and>
   oldestUnflushedChunkTimestamp (metrics ((exIngester exHalf)
            \<lparr>metrics := exMetrics\<lparr>oldestUnflushedChunkTimestamp := 1\<rparr>\<rparr>)) \<noteq> 1500"
proof -
  have run: "sweepUsers (\<lambda>u f. 400000) False (exIngester exHalf) =
     Inr ((exIngester exHalf)
            \<lparr>metrics := exMetrics\<lparr>oldestUnflushedChunkTimestamp := 1\<rparr>\<rparr>)"
    by (simp add: sweep_defs exHalf_def exec_defs ex_defs ex2_defs)
  have least: "minUnflushed (allSeries (exIngester exHalf)) = 1500"
    by (simp add: minUnflushed_def allSeries_def exHalf_def exIngester_def exSeries_def
        exChunk_def firstUnflushedChunkTime_def word_sless_alt)
  have least': "minUnflushed (allSeries ((exIngester exHalf)
            \<lparr>metrics := exMetrics\<lparr>oldestUnflushedChunkTimestamp := 1\<rparr>\<rparr>)) = 1500"
    using least by (simp add: allSeries_def)
  show ?thesis
    using run least least' by (simp add: exIngester_def)
qed

text \<open>
  Claim C7, amended. After every complete run of \<open>sweepUsers\<close> with a chunk store, the
  \<open>oldestUnflushedChunkTimestamp\<close> gauge is \<open>Unix\<close> of the oldest unflushed chunk time,
  that is this time in milliseconds divided by 1000 and truncated, where the oldest
  unflushed chunk time is the minimum of \<open>firstUnflushedChunkTime()\<close> over all series
  for which that value is greater than 0, and 0 when there is no such series. This
  holds of the series the sweep started with, and, the registry being a map, of the
  series that are there after the sweep.
\<close>

theorem sweepUsers_oldest_gauge:
  assumes "sweepUsers clock immediate i = Inr i1" and "chunkStore i \<noteq> None"
  shows "oldestUnflushedChunkTimestamp (metrics i1) = Unix (minUnflushed (allSeries i)) \<and>
         (wellFormed i \<longrightarrow>
            oldestUnflushedChunkTimestamp (metrics i1) = Unix (minUnflushed (allSeries i1)))"
proof -
  from assms obtain i0 oldest where
    sw: "sweepStates clock immediate (userStates i) (i, 0) = Inr (i0, oldest)"
    and i1: "i1 = i0\<lparr>metrics := (metrics i0)\<lparr>oldestUnflushedChunkTimestamp := Unix oldest\<rparr>\<rparr>"
    by (auto simp: sweepUsers_def split: sum.splits)
  from sweepStates_oldest [OF sw] have pre: "oldest = minUnflushed (allSeries i)"
    by (simp add: foldl_older_minUnflushed allSeries_def)
  have "allSeries i1 = allSeries i0"
    by (simp add: i1 allSeries_def)
  then have post: "wellFormed i \<Longrightarrow> minUnflushed (allSeries i1) = minUnflushed (allSeries i)"
    using sweepStates_minUnflushed [OF sw] by simp
  from i1 pre post show ?thesis
    by simp
qed

theorem sweepUsers_oldest_gauge_witness:
  "sweepUsers (\<lambda>u f. 400000) False (exTenants (exChunk 1000 1200 2000 True # exHalf)) =
     Inr ((exTenants exHalf)
            \<lparr>metrics := exMetrics\<lparr>memoryChunks := 2, oldestUnflushedChunkTimestamp := 1\<rparr>\<rparr>) \<and>
   chunkStore (exTenants (exChunk 1000 1200 2000 True # exHalf)) \<noteq> None \<and>
   wellFormed (exTenants (exChunk 1000 1200 2000 True # exHalf)) \<and>
   map firstUnflushedChunkTime (allSeries (exTenants (exChunk 1000 1200 2000 True # exHalf))) =
     [2500, 1500, 0] \<and>
   minUnflushed (allSeries (exTenants (exChunk 1000 1200 2000 True # exHalf))) = 1500 \<and>
   minUnflushed (allSeries ((exTenants exHalf)
            \<lparr>metrics := exMetrics\<lparr>memoryChunks := 2, oldestUnflushedChunkTimestamp := 1\<rparr>\<rparr>)) =
     1500 \<and>
   Unix 1500 = 1"
proof -
  let ?i = "exTenants (exChunk 1000 1200 2000 True # exHalf)"
  let ?i1 = "(exTenants exHalf)
            \<lparr>metrics := exMetrics\<lparr>memoryChunks := 2, oldestUnflushedChunkTimestamp := 1\<rparr>\<rparr>"
  have run: "sweepUsers (\<lambda>u f. 400000) False ?i = Inr ?i1"
    by (simp add: sweep_defs exTenants_def exHalf_def exec_defs ex_defs ex2_defs)
  have store: "chunkStore ?i \<noteq> None"
    by (simp add: exTenants_def exIngester_def)
  have wf: "wellFormed ?i"
    by (simp add: wellFormed_def exTenants_def exIngester_def)
  have firsts: "map firstUnflushedChunkTime (allSeries ?i) = [2500, 1500, 0]"
    by (simp add: allSeries_def exTenants_def exHalf_def exIngester_def exSeries_def
        exChunk_def firstUnflushedChunkTime_def)
  have least: "minUnflushed (allSeries ?i) = 1500"
    by (simp add: minUnflushed_def firsts word_sless_alt)
  have least1: "minUnflushed (allSeries ?i1) = 1500"
    by (simp add: minUnflushed_def allSeries_def exTenants_def exHalf_def exIngester_def
        exSeries_def exChunk_def firstUnflushedChunkTime_def word_sless_alt)
  have unix: "Unix 1500 = 1"
    by (simp add: Unix_def second_def quo64_def signed_divide_int_def)
  show ?thesis
    using sweepUsers_oldest_gauge [OF run store] run store wf firsts least least1 unix by simp
qed
end
